theory Spec2Isabelle
  imports Complex_Main "HOL-Library.Log_Nat" "HOL-Library.Word"
begin

section \<open>Binary floating point, as the controller uses it\<close>

text \<open>
  \<^verbatim>\<open>main.cpp\<close> computes the axis in C \<^verbatim>\<open>float\<close> (IEEE binary32) and the output frame in
  \<^verbatim>\<open>double\<close> (IEEE binary64): a decimal literal such as \<^verbatim>\<open>512.0\<close> is a \<^verbatim>\<open>double\<close>, as the
  language defines it. A finite floating-point number is modelled by the real number it
  denotes; an arithmetic operation is the exact operation on reals followed by rounding to
  the nearest representable number, ties to the even significand (the default rounding mode).

  \<^item> \<open>ilog2 x\<close> is the binary exponent of a positive real, computed from the bit length of an
    integer so that it evaluates on rational inputs.
  \<^item> \<open>round_to p emin\<close> rounds to a significand of \<open>p\<close> bits with least exponent \<open>emin\<close>
    (gradual underflow below \<open>2 ^ (emin + p - 1)\<close>). Lemma \<open>round_to_nearest\<close> shows that
    no representable number is nearer to the argument than the result.
  \<^item> The exponent range is not bounded above: infinities and NaN are not values of the model.
    The controller cannot produce them: the axis is clamped to the range from -1 to 1, a tick
    delta is a 32-bit integer (lemma \<open>tick_intermediates_finite\<close>), and the frame value is
    below 1024.
  \<^item> The two zeros are one value: the program only compares, adds and multiplies.
\<close>

definition ilog2 :: "real \<Rightarrow> int" where
  "ilog2 x = (if 1 \<le> x then bitlen \<lfloor>x\<rfloor> - 1
              else (let k = bitlen \<lfloor>1 / x\<rfloor> in if x * 2 powi (k - 1) = 1 then 1 - k else - k))"

definition rne :: "real \<Rightarrow> int" where
  "rne x = (let f = \<lfloor>x\<rfloor>; d = x - of_int f in
            if d < 1 / 2 then f else if 1 / 2 < d then f + 1 else if even f then f else f + 1)"

definition fexp :: "int \<Rightarrow> int \<Rightarrow> real \<Rightarrow> int" where
  "fexp p emin x = max (ilog2 \<bar>x\<bar> + 1 - p) emin"

definition round_to :: "int \<Rightarrow> int \<Rightarrow> real \<Rightarrow> real" where
  "round_to p emin x =
     (if x = 0 then 0
      else (let e = fexp p emin x in of_int (rne (x / 2 powi e)) * 2 powi e))"

definition rnd32 :: "real \<Rightarrow> real" where
  "rnd32 = round_to 24 (- 149)"

definition rnd64 :: "real \<Rightarrow> real" where
  "rnd64 = round_to 53 (- 1074)"

definition is_f32 :: "real \<Rightarrow> bool" where
  "is_f32 x = (rnd32 x = x)"

text \<open>A decimal literal of the source is a \<^verbatim>\<open>double\<close>; initialising a \<^verbatim>\<open>float\<close> with it rounds
  a second time.\<close>

definition float_lit :: "real \<Rightarrow> real" where
  "float_lit q = rnd32 (rnd64 q)"

definition fmul32 :: "real \<Rightarrow> real \<Rightarrow> real" where
  "fmul32 a b = rnd32 (a * b)"

definition fsub32 :: "real \<Rightarrow> real \<Rightarrow> real" where
  "fsub32 a b = rnd32 (a - b)"

definition int_to_f32 :: "int \<Rightarrow> real" where
  "int_to_f32 i = rnd32 (of_int i)"

definition dmul :: "real \<Rightarrow> real \<Rightarrow> real" where
  "dmul a b = rnd64 (a * b)"

definition dadd :: "real \<Rightarrow> real \<Rightarrow> real" where
  "dadd a b = rnd64 (a + b)"

definition dsub :: "real \<Rightarrow> real \<Rightarrow> real" where
  "dsub a b = rnd64 (a - b)"

text \<open>Conversion of a \<^verbatim>\<open>double\<close> to \<^verbatim>\<open>long\<close> truncates towards zero.\<close>

definition to_long :: "real \<Rightarrow> int" where
  "to_long x = (if 0 \<le> x then \<lfloor>x\<rfloor> else \<lceil>x\<rceil>)"


section \<open>The Arduino core macros used by \<^verbatim>\<open>loop\<close>\<close>

text \<open>
  Modelled from the spec: \<^verbatim>\<open>constrain\<close>, \<^verbatim>\<open>abs\<close> and \<^verbatim>\<open>round\<close> come from \<^verbatim>\<open>Arduino.h\<close>, which
  is not part of the repository. The spec reads them as a saturating clamp at both bounds, the
  absolute value and rounding to the nearest integer; the definitions below are the macro
  bodies of the core, which have exactly that reading: \<^verbatim>\<open>constrain\<close> compares against the low
  bound first, \<^verbatim>\<open>round\<close> adds or subtracts one half in \<^verbatim>\<open>double\<close> and truncates.
\<close>

definition constrain :: "'a::linorder \<Rightarrow> 'a \<Rightarrow> 'a \<Rightarrow> 'a" where
  "constrain amt low high = (if amt < low then low else if high < amt then high else amt)"

definition abs_macro :: "real \<Rightarrow> real" where
  "abs_macro x = (if 0 < x then x else - x)"

definition round_macro :: "real \<Rightarrow> int" where
  "round_macro x = (if 0 \<le> x then to_long (dadd x (1 / 2)) else to_long (dsub x (1 / 2)))"


section \<open>The switch source\<close>

text \<open>
  Modelled from the spec: the \<^verbatim>\<open>Bounce\<close> class (\<^verbatim>\<open>Bounce.h\<close>) is a library outside the
  repository. The spec describes it as a debounced boolean level with edge queries that are
  true for the queries of the one cycle after the corresponding transition. \<open>update\<close> takes the
  level the debouncer has settled on in this cycle (\<open>True\<close> is HIGH, the released level of a
  pull-up input).
\<close>

record bounce =
  state :: bool
  stateChanged :: bool

definition update :: "bool \<Rightarrow> bounce \<Rightarrow> bounce" where
  "update lvl b = \<lparr>state = lvl, stateChanged = (state b \<noteq> lvl)\<rparr>"

definition fallingEdge :: "bounce \<Rightarrow> bool" where
  "fallingEdge b = (stateChanged b \<and> \<not> state b)"

definition risingEdge :: "bounce \<Rightarrow> bool" where
  "risingEdge b = (stateChanged b \<and> state b)"


section \<open>Globals and constants of \<^verbatim>\<open>main.cpp\<close>\<close>

text \<open>
  \<^verbatim>\<open>long\<close> and \<^verbatim>\<open>int\<close> are the 32-bit integers of the Teensy's ARM core; the subtraction of
  two positions is modelled as wrapping around, and \<open>sint\<close> reads the difference as the signed
  \<^verbatim>\<open>int delta\<close>. \<^verbatim>\<open>encoder1Accum\<close> is never read or written and is left out, and so is the
  \<^verbatim>\<open>delay(5)\<close> that ends a cycle.
\<close>

record controller =
  encoder1Position :: "32 word"
  lastEncoder1Position :: "32 word"
  joystickXFloat :: real
  button :: bounce

definition incrementStep :: real where
  "incrementStep = float_lit (5 / 100)"

definition decayRate :: real where
  "decayRate = float_lit (8 / 10)"

definition zeroThreshold :: real where
  "zeroThreshold = float_lit (1 / 100)"

text \<open>What the sinks receive. The \<^verbatim>\<open>Serial\<close> diagnostics are not part of the contract and
  are left out.\<close>

datatype event =
    Joystick_X int
  | Joystick_Y int
  | Joystick_send_now
  | Keyboard_press char
  | Keyboard_release char

definition setup_state :: "bool \<Rightarrow> controller" where
  "setup_state pin =
     \<lparr>encoder1Position = 0, lastEncoder1Position = 0, joystickXFloat = 0,
      button = \<lparr>state = pin, stateChanged = False\<rparr>\<rparr>"

definition setup_events :: "event list" where
  "setup_events = [Joystick_X 512, Joystick_Y 512, Joystick_send_now]"


section \<open>One cycle of \<^verbatim>\<open>loop\<close>\<close>

text \<open>Lines 47--51: the new axis value for a tick delta (the spec's \<open>applyTickDelta\<close>).\<close>

definition applyTickDelta :: "32 word \<Rightarrow> real \<Rightarrow> real" where
  "applyTickDelta delta x =
     (let effectiveIncrement = incrementStep in
      constrain (fsub32 x (fmul32 (int_to_f32 (sint delta)) effectiveIncrement)) (- 1) 1)"

text \<open>Lines 42--55: read the encoder; on a new position store it and move the axis.
  The flag is \<^verbatim>\<open>joystickNeedsUpdate\<close>.\<close>

definition encoder_block :: "32 word \<Rightarrow> controller \<Rightarrow> controller \<times> bool" where
  "encoder_block enc s =
     (let s1 = s\<lparr>encoder1Position := enc\<rparr> in
      if encoder1Position s1 \<noteq> lastEncoder1Position s1 then
        (let delta = encoder1Position s1 - lastEncoder1Position s1 in
         (s1\<lparr>lastEncoder1Position := encoder1Position s1,
             joystickXFloat := applyTickDelta delta (joystickXFloat s1)\<rparr>, True))
      else (s1, False))"

text \<open>Lines 58--66 on the axis value alone (the spec's \<open>applyDecay\<close>): the new value and
  whether the block sets \<^verbatim>\<open>joystickNeedsUpdate\<close>.\<close>

definition applyDecay :: "real \<Rightarrow> real \<times> bool" where
  "applyDecay x =
     (if x \<noteq> 0 then
        (let oldX = x;
             x1 = fmul32 x decayRate;
             x2 = (if abs_macro x1 < zeroThreshold then 0 else x1)
         in (x2, x2 \<noteq> oldX))
      else (x, False))"

definition decay_block :: "controller \<times> bool \<Rightarrow> controller \<times> bool" where
  "decay_block sf =
     (let (s, needsUpdate) = sf; (x, changed) = applyDecay (joystickXFloat s)
      in (s\<lparr>joystickXFloat := x\<rparr>, needsUpdate \<or> changed))"

text \<open>Lines 70--72: the frame value for the X axis.\<close>

definition xVal_raw :: "real \<Rightarrow> int" where
  "xVal_raw x = round_macro (dadd 512 (dmul x 511))"

definition xVal_of :: "real \<Rightarrow> int" where
  "xVal_of x = constrain (xVal_raw x) 0 1023"

text \<open>Lines 69--84: the output frame.\<close>

definition hid_block :: "controller \<times> bool \<Rightarrow> event list" where
  "hid_block sf =
     (let (s, needsUpdate) = sf in
      if needsUpdate then
        (let xVal = xVal_of (joystickXFloat s); yVal = 512
         in [Joystick_X xVal, Joystick_Y yVal, Joystick_send_now])
      else [])"

text \<open>Lines 87--94: the key events.\<close>

definition key_block :: "bounce \<Rightarrow> event list" where
  "key_block b =
     (if fallingEdge b then [Keyboard_press CHR '' ''] else []) @
     (if risingEdge b then [Keyboard_release CHR '' ''] else [])"

text \<open>The whole cycle: the inputs are what \<^verbatim>\<open>encoder1.read()\<close> returns and the level the
  switch source settles on in \<^verbatim>\<open>button.update()\<close>.\<close>

definition loop :: "32 word \<times> bool \<Rightarrow> controller \<Rightarrow> controller \<times> event list" where
  "loop inp s =
     (let (enc, lvl) = inp;
          s0 = s\<lparr>button := update lvl (button s)\<rparr>;
          sf = decay_block (encoder_block enc s0)
      in (fst sf, hid_block sf @ key_block (button s0)))"

text \<open>Running the loop over the inputs of consecutive cycles, collecting the events.\<close>

fun run :: "(32 word \<times> bool) list \<Rightarrow> controller \<Rightarrow> controller \<times> event list" where
  "run [] s = (s, [])"
| "run (i # is) s = (let (s1, ev) = loop i s; (s2, evs) = run is s1 in (s2, ev @ evs))"

definition is_key :: "event \<Rightarrow> bool" where
  "is_key e = (case e of Keyboard_press _ \<Rightarrow> True | Keyboard_release _ \<Rightarrow> True | _ \<Rightarrow> False)"

definition is_frame :: "event \<Rightarrow> bool" where
  "is_frame e = (\<not> is_key e)"

text \<open>The key events of consecutive cycles, from the levels of the switch source alone.\<close>

fun key_trace :: "bool list \<Rightarrow> bounce \<Rightarrow> event list" where
  "key_trace [] b = []"
| "key_trace (l # ls) b = key_block (update l b) @ key_trace ls (update l b)"

text \<open>The two mutations of the axis value, for sequences of them.\<close>

datatype mutation = Tick "32 word" | Decay

fun mutate :: "mutation \<Rightarrow> real \<Rightarrow> real" where
  "mutate (Tick d) x = applyTickDelta d x"
| "mutate Decay x = fst (applyDecay x)"

text \<open>The axis value after each mutation of a sequence, the initial value first.\<close>

fun axis_trace :: "mutation list \<Rightarrow> real \<Rightarrow> real list" where
  "axis_trace [] x = [x]"
| "axis_trace (m # ms) x = x # axis_trace ms (mutate m x)"

text \<open>Repeated decay.\<close>

fun decay_iter :: "nat \<Rightarrow> real \<Rightarrow> real" where
  "decay_iter 0 x = x"
| "decay_iter (Suc n) x = decay_iter n (fst (applyDecay x))"

text \<open>The spec's words for the two operations and the mapping, to compare with the code.\<close>

definition clamp :: "real \<Rightarrow> real \<Rightarrow> real \<Rightarrow> real" where
  "clamp x lo hi = max lo (min hi x)"

definition clamp_int :: "int \<Rightarrow> int \<Rightarrow> int \<Rightarrow> int" where
  "clamp_int x lo hi = max lo (min hi x)"

text \<open>Rounding to the nearest integer, ties away from zero, in exact arithmetic; and the
  spec's mapping of the axis value to the sink's range.\<close>

definition round_nearest :: "real \<Rightarrow> int" where
  "round_nearest x = (if 0 \<le> x then \<lfloor>x + 1 / 2\<rfloor> else \<lceil>x - 1 / 2\<rceil>)"

definition spec_xVal :: "real \<Rightarrow> int" where
  "spec_xVal v = clamp_int (round_nearest (512 + v * 511)) 0 1023"

text \<open>The spec's bound on the number of decay calls from a start value.\<close>

definition decay_calls_bound :: "real \<Rightarrow> int" where
  "decay_calls_bound s = \<lceil>ln ((1 / 100) / \<bar>s\<bar>) / ln (8 / 10)\<rceil>"

text \<open>The invariant of the axis value: a \<^verbatim>\<open>float\<close> in the closed range from -1 to 1.\<close>

definition axis_ok :: "real \<Rightarrow> bool" where
  "axis_ok v = (is_f32 v \<and> - 1 \<le> v \<and> v \<le> 1)"

definition spec_applyDecay :: "real \<Rightarrow> real \<times> bool" where
  "spec_applyDecay v =
     (let v' = (if v \<noteq> 0
                then (let m = fmul32 v decayRate in if \<bar>m\<bar> < zeroThreshold then 0 else m)
                else v)
      in (v', v \<noteq> 0 \<and> v' \<noteq> v))"


section \<open>Properties\<close>

lemma constrain_clamp: "lo \<le> hi \<Longrightarrow> constrain x lo hi = clamp x lo hi"
  by (auto simp: constrain_def clamp_def)

lemma abs_macro_abs: "abs_macro x = \<bar>x\<bar>"
  by (simp add: abs_macro_def)

subsection \<open>Rounding: exponent, error and exactness\<close>

lemma powi2_pos [simp]: "0 < (2::real) powi k"
  by (simp add: power_int_def)

lemma powi2_mono: "j \<le> k \<Longrightarrow> (2::real) powi j \<le> 2 powi k"
  by (rule power_int_increasing) simp_all

lemma powi2_strict_mono: "j < k \<Longrightarrow> (2::real) powi j < 2 powi k"
  by (rule power_int_strict_increasing) simp_all

lemma powi2_less_iff: "(2::real) powi j < 2 powi k \<longleftrightarrow> j < k"
  by (metis powi2_strict_mono powi2_mono not_less)

lemma powi2_le_iff: "(2::real) powi j \<le> 2 powi k \<longleftrightarrow> j \<le> k"
  by (metis powi2_strict_mono powi2_mono not_less)

lemma ilog2_ge1:
  assumes "1 \<le> x"
  shows "2 powi (ilog2 x) \<le> x \<and> x < 2 powi (ilog2 x + 1)"
proof -
  let ?n = "\<lfloor>x\<rfloor>"
  have n: "0 < ?n" using assms by linarith
  have b1: "1 \<le> bitlen ?n" using n by (simp add: bitlen_alt_def)
  have lo: "(2::int) ^ nat (bitlen ?n - 1) \<le> ?n" and hi: "?n < 2 ^ nat (bitlen ?n)"
    using bitlen_bounds [OF n] by auto
  have "real_of_int (2 ^ nat (bitlen ?n - 1)) \<le> real_of_int ?n"
    using lo by (simp only: of_int_le_iff)
  also have "\<dots> \<le> x" by (rule of_int_floor_le)
  finally have lo': "2 ^ nat (bitlen ?n - 1) \<le> x" by simp
  have "?n + 1 \<le> 2 ^ nat (bitlen ?n)" using hi by linarith
  then have "real_of_int (?n + 1) \<le> real_of_int (2 ^ nat (bitlen ?n))"
    by (simp only: of_int_le_iff)
  then have "real_of_int ?n + 1 \<le> 2 ^ nat (bitlen ?n)" by simp
  moreover have "x < real_of_int ?n + 1" by linarith
  ultimately have hi': "x < 2 ^ nat (bitlen ?n)" by linarith
  have e: "ilog2 x = bitlen ?n - 1" using assms by (simp add: ilog2_def)
  show ?thesis using lo' hi' b1 by (simp add: e power_int_def)
qed

lemma ilog2_lt1:
  assumes "0 < x" "x < 1"
  shows "2 powi (ilog2 x) \<le> x \<and> x < 2 powi (ilog2 x + 1)"
proof -
  let ?y = "1 / x"
  have y1: "1 \<le> ?y" using assms by simp
  let ?k = "ilog2 ?y"
  have yb: "2 powi ?k \<le> ?y" "?y < 2 powi (?k + 1)" using ilog2_ge1 [OF y1] by auto
  have kdef: "bitlen \<lfloor>1 / x\<rfloor> = ?k + 1" using y1 by (simp add: ilog2_def)
  have xu: "x \<le> 2 powi (- ?k)"
  proof -
    have "x * 2 powi ?k \<le> 1" using yb(1) assms by (simp add: field_simps)
    then show ?thesis by (simp add: power_int_minus field_simps)
  qed
  have xl: "2 powi (- ?k - 1) < x"
  proof -
    define P where "P = (2::real) powi (?k + 1)"
    have P: "0 < P" by (simp add: P_def)
    have "1 / x < P" using yb(2) by (simp add: P_def)
    then have "1 < x * P" using assms by (simp add: field_simps)
    then have "inverse P < x" using P by (simp add: field_simps)
    moreover have "(2::real) powi (- ?k - 1) = inverse P"
      unfolding P_def by (simp flip: power_int_minus)
    ultimately show ?thesis by simp
  qed
  have e0: "ilog2 x = (if x * 2 powi ?k = 1 then - ?k else - ?k - 1)"
    using assms(2) by (simp add: ilog2_def [of x] kdef Let_def)
  show ?thesis
  proof (cases "x * 2 powi ?k = 1")
    case True
    have e: "ilog2 x = - ?k" unfolding e0 using True by simp
    have "x = 2 powi (- ?k)" using True by (simp add: power_int_minus field_simps)
    then show ?thesis using e powi2_strict_mono [of "- ?k" "- ?k + 1"] by simp
  next
    case False
    have e: "ilog2 x = - ?k - 1" unfolding e0 using False by simp
    have "x \<noteq> 2 powi (- ?k)" using False by (auto simp add: power_int_minus field_simps)
    then show ?thesis using e xl xu by simp
  qed
qed

lemma ilog2_bounds:
  assumes "0 < x"
  shows "2 powi (ilog2 x) \<le> x" "x < 2 powi (ilog2 x + 1)"
  using ilog2_ge1 [of x] ilog2_lt1 [of x] assms by (cases "1 \<le> x"; simp)+

lemma ilog2_unique:
  assumes "2 powi k \<le> x" "x < 2 powi (k + 1)"
  shows "ilog2 x = k"
proof -
  have x: "0 < x" using assms(1) powi2_pos [of k] by linarith
  have "2 powi k < (2::real) powi (ilog2 x + 1)" using assms(1) ilog2_bounds(2) [OF x] by linarith
  then have a: "k < ilog2 x + 1" by (simp add: powi2_less_iff)
  have "2 powi (ilog2 x) < (2::real) powi (k + 1)" using assms(2) ilog2_bounds(1) [OF x] by linarith
  then have "ilog2 x < k + 1" by (simp add: powi2_less_iff)
  with a show ?thesis by linarith
qed

lemma rne_of_int [simp]: "rne (of_int n) = n"
  by (simp add: rne_def)

lemma rne_cases: "rne x = \<lfloor>x\<rfloor> \<or> rne x = \<lfloor>x\<rfloor> + 1"
  by (simp add: rne_def Let_def)

lemma rne_error: "\<bar>of_int (rne x) - x\<bar> \<le> 1 / 2"
proof -
  have "of_int \<lfloor>x\<rfloor> \<le> x" "x < of_int \<lfloor>x\<rfloor> + 1" by linarith+
  then show ?thesis by (auto simp: rne_def Let_def abs_le_iff)
qed

lemma rne_ge: "of_int n \<le> x \<Longrightarrow> n \<le> rne x"
  using rne_cases [of x] le_floor_iff [of n x] by linarith

lemma rne_le:
  assumes "x \<le> of_int n" shows "rne x \<le> n"
proof (cases "x = of_int n")
  case True then show ?thesis by simp
next
  case False
  then have "x < of_int n" using assms by simp
  then have "\<lfloor>x\<rfloor> < n" by (simp add: floor_less_iff)
  then show ?thesis using rne_cases [of x] by linarith
qed

lemma rne_uminus: "rne (- x) = - rne x"
proof (cases "x = of_int \<lfloor>x\<rfloor>")
  case True
  then obtain n where "x = of_int n" ..
  then show ?thesis by (simp flip: of_int_minus)
next
  case False
  then have nz: "x \<notin> \<int>" by (metis Ints_cases of_int_floor_cancel floor_of_int)
  have f: "\<lfloor>- x\<rfloor> = - \<lfloor>x\<rfloor> - 1" using nz False by (simp add: floor_minus ceiling_altdef)
  show ?thesis
    unfolding rne_def Let_def f by (auto simp: algebra_simps)
qed

lemma fexp_abs: "fexp p emin (- x) = fexp p emin x"
  by (simp add: fexp_def)

lemma fexp_ge_emin: "emin \<le> fexp p emin x"
  by (simp add: fexp_def)

lemma ilog2_less:
  assumes "0 < x" "x < 2 powi k" shows "ilog2 x < k"
proof -
  have "2 powi (ilog2 x) < (2::real) powi k" using ilog2_bounds(1) [OF assms(1)] assms(2) by linarith
  then show ?thesis by (simp add: powi2_less_iff)
qed

lemma ilog2_ge:
  assumes "2 powi k \<le> x" shows "k \<le> ilog2 x"
proof -
  have x: "0 < x" using assms powi2_pos [of k] by linarith
  have "2 powi k < (2::real) powi (ilog2 x + 1)" using ilog2_bounds(2) [OF x] assms by linarith
  then show ?thesis by (simp add: powi2_less_iff)
qed

lemma fexp_le:
  assumes "x \<noteq> 0" "\<bar>x\<bar> < 2 powi k" shows "fexp p emin x \<le> max (k - p) emin"
  using ilog2_less [of "\<bar>x\<bar>" k] assms by (simp add: fexp_def)

lemma fexp_ge:
  assumes "2 powi k \<le> \<bar>x\<bar>" shows "k + 1 - p \<le> fexp p emin x"
  using ilog2_ge [of k "\<bar>x\<bar>"] assms by (simp add: fexp_def)

lemma round_to_uminus: "round_to p emin (- x) = - round_to p emin x"
  by (simp add: round_to_def fexp_abs Let_def rne_uminus)

lemma round_to_0 [simp]: "round_to p emin 0 = 0"
  by (simp add: round_to_def)

lemma round_to_error:
  "\<bar>round_to p emin x - x\<bar> \<le> 2 powi (fexp p emin x) / 2"
proof (cases "x = 0")
  case True then show ?thesis by simp
next
  case False
  define u where "u = (2::real) powi (fexp p emin x)"
  define r where "r = real_of_int (rne (x / u))"
  have u: "0 < u" by (simp add: u_def)
  have "\<bar>r - x / u\<bar> \<le> 1 / 2" unfolding r_def by (rule rne_error)
  then have "\<bar>r - x / u\<bar> * u \<le> 1 / 2 * u"
    using u by (simp only: mult_le_cancel_right_pos)
  moreover have "\<bar>r - x / u\<bar> * u = \<bar>(r - x / u) * u\<bar>"
    using u by (simp add: abs_mult)
  moreover have "(r - x / u) * u = r * u - x"
    using u by (simp add: field_simps)
  ultimately have "\<bar>r * u - x\<bar> \<le> u / 2" by simp
  moreover have "round_to p emin x = r * u"
    using False by (simp add: round_to_def Let_def u_def r_def)
  ultimately show ?thesis by (simp add: u_def)
qed

lemma round_to_exact:
  assumes "x = of_int m * 2 powi j" "fexp p emin x \<le> j"
  shows "round_to p emin x = x"
proof (cases "x = 0")
  case True then show ?thesis by simp
next
  case False
  define e where "e = fexp p emin x"
  have "(2::real) powi j = 2 powi (j - e) * 2 powi e"
    by (simp flip: power_int_add)
  also have "(2::real) powi (j - e) = 2 ^ nat (j - e)"
    using assms(2) by (simp add: e_def power_int_def)
  finally have xe: "x / 2 powi e = of_int (m * 2 ^ nat (j - e))"
    using assms(1) by simp
  have "of_int (rne (x / 2 powi e)) * 2 powi e = x / 2 powi e * 2 powi e"
    by (simp only: xe rne_of_int)
  also have "\<dots> = x" by simp
  finally have "of_int (rne (x / 2 powi e)) * 2 powi e = x" .
  then show ?thesis using False by (simp add: round_to_def Let_def e_def)
qed

lemma round_to_of_int_mult:
  "\<exists>m. round_to p emin x = of_int m * 2 powi (fexp p emin x)"
  by (cases "x = 0") (auto simp: round_to_def Let_def)

lemma round_to_sign_nonneg:
  assumes "0 \<le> x" shows "0 \<le> round_to p emin x"
proof (cases "x = 0")
  case True then show ?thesis by simp
next
  case False
  have "0 \<le> x / 2 powi (fexp p emin x)" using assms by simp
  then have "0 \<le> rne (x / 2 powi (fexp p emin x))" using rne_ge [of 0] by simp
  then show ?thesis using False by (simp add: round_to_def Let_def)
qed

lemma round_to_sign_nonpos:
  assumes "x \<le> 0" shows "round_to p emin x \<le> 0"
  using round_to_sign_nonneg [of "- x" p emin] assms by (simp add: round_to_uminus)

lemma round_to_rel_error:
  assumes "2 powi (emin + p - 1) \<le> \<bar>x\<bar>"
  shows "\<bar>round_to p emin x - x\<bar> \<le> \<bar>x\<bar> * 2 powi (- p)"
proof -
  have x: "0 < \<bar>x\<bar>" using assms powi2_pos [of "emin + p - 1"] by linarith
  have "emin + p - 1 \<le> ilog2 \<bar>x\<bar>" using assms by (rule ilog2_ge)
  then have e: "fexp p emin x = ilog2 \<bar>x\<bar> + 1 - p" by (simp add: fexp_def)
  have "(2::real) powi (fexp p emin x) / 2 = 2 powi (ilog2 \<bar>x\<bar>) * 2 powi (- p)"
    by (simp add: e power_int_add power_int_diff power_int_minus field_simps)
  also have "\<dots> \<le> \<bar>x\<bar> * 2 powi (- p)"
    using ilog2_bounds(1) [OF x] by (simp only: mult_le_cancel_right_pos powi2_pos)
  finally show ?thesis using round_to_error [of p emin x] by linarith
qed

lemma round_to_abs_le:
  assumes "x \<noteq> 0" "\<bar>x\<bar> < 2 powi k" "emin \<le> k - p"
  shows "\<bar>round_to p emin x\<bar> \<le> \<bar>x\<bar> + 2 powi (k - p) / 2"
    and "\<bar>round_to p emin x - x\<bar> \<le> 2 powi (k - p) / 2"
proof -
  have "fexp p emin x \<le> k - p" using fexp_le [OF assms(1,2), of p emin] assms(3) by simp
  then have "(2::real) powi (fexp p emin x) \<le> 2 powi (k - p)" by (rule powi2_mono)
  then show "\<bar>round_to p emin x - x\<bar> \<le> 2 powi (k - p) / 2"
    using round_to_error [of p emin x] by linarith
  then show "\<bar>round_to p emin x\<bar> \<le> \<bar>x\<bar> + 2 powi (k - p) / 2" by linarith
qed

lemma round_to_idem:
  assumes "1 \<le> p"
  shows "round_to p emin (round_to p emin x) = round_to p emin x"
proof (cases "x = 0")
  case True then show ?thesis by simp
next
  case False
  define e where "e = fexp p emin x"
  define q where "q = x / 2 powi e"
  define N where "N = rne q"
  define y where "y = round_to p emin x"
  have y: "y = of_int N * 2 powi e" using False by (simp add: y_def round_to_def Let_def e_def N_def q_def)
  have ax: "0 < \<bar>x\<bar>" using False by simp
  have ee: "ilog2 \<bar>x\<bar> + 1 - p \<le> e" "emin \<le> e" by (simp_all add: e_def fexp_def)
  have "\<bar>x\<bar> < 2 powi (ilog2 \<bar>x\<bar> + 1)" using ilog2_bounds(2) [OF ax] .
  also have "\<dots> \<le> 2 powi (e + p)" using ee by (intro powi2_mono) simp
  finally have "\<bar>x\<bar> < 2 powi (e + p)" .
  then have "\<bar>x\<bar> / 2 powi e < 2 powi p"
    by (simp add: power_int_add field_simps)
  moreover have "\<bar>q\<bar> = \<bar>x\<bar> / 2 powi e" by (simp add: q_def)
  moreover have pp: "(2::real) powi p = of_int (2 ^ nat p)" using assms by (simp add: power_int_def)
  ultimately have ub: "\<bar>q\<bar> < of_int (2 ^ nat p)" by simp
  have Nb: "\<bar>N\<bar> \<le> 2 ^ nat p"
  proof -
    have "q \<le> of_int (2 ^ nat p)" using ub by linarith
    then have 1: "N \<le> 2 ^ nat p" unfolding N_def by (rule rne_le)
    have "- real_of_int (2 ^ nat p) \<le> q" using ub by linarith
    then have "of_int (- (2 ^ nat p)) \<le> q" by simp
    then have "- (2 ^ nat p) \<le> N" unfolding N_def by (rule rne_ge)
    with 1 show ?thesis by linarith
  qed
  show ?thesis
  proof (cases "\<bar>N\<bar> = 2 ^ nat p")
    case True
    have p1: "nat p = Suc (nat (p - 1))" using assms by simp
    have "real_of_int \<bar>N\<bar> = real_of_int (2 ^ nat p)" by (simp only: True)
    then have "\<bar>real_of_int N\<bar> = 2 powi p" by (simp add: pp)
    then have ay: "\<bar>y\<bar> = 2 powi (e + p)"
      by (simp add: y abs_mult power_int_add)
    have "ilog2 \<bar>y\<bar> = e + p"
      by (rule ilog2_unique) (simp_all add: ay powi2_less_iff)
    then have fy: "fexp p emin y = e + 1" using ee by (simp add: fexp_def)
    define M :: int where "M = 2 ^ nat (p - 1)"
    have "(2::int) ^ nat p = 2 * M" unfolding M_def by (subst p1) simp
    then have "N = 2 * M \<or> N = 2 * (- M)" using True by linarith
    then obtain M' where N2: "N = 2 * M'" by blast
    have "y = of_int M' * 2 powi (e + 1)"
      by (simp add: y N2 power_int_add)
    then have "round_to p emin y = y" by (rule round_to_exact) (simp add: fy)
    then show ?thesis by (simp add: y_def)
  next
    case False
    then have "\<bar>N\<bar> < 2 ^ nat p" using Nb by linarith
    then have "real_of_int \<bar>N\<bar> < real_of_int (2 ^ nat p)" by (simp only: of_int_less_iff)
    then have "\<bar>real_of_int N\<bar> < 2 powi p" by (simp add: pp)
    then have "\<bar>real_of_int N\<bar> * 2 powi e < 2 powi p * 2 powi e"
      by (simp only: mult_less_cancel_right_pos powi2_pos)
    then have "\<bar>y\<bar> < 2 powi (e + p)"
      by (simp add: y abs_mult power_int_add mult.commute)
    then have "y = 0 \<or> fexp p emin y \<le> max (e + p - p) emin"
      using fexp_le [of y "e + p" p emin] by blast
    then have "y = 0 \<or> fexp p emin y \<le> e" using ee by simp
    then have "round_to p emin y = y"
      using round_to_exact [OF y] by auto
    then show ?thesis by (simp add: y_def)
  qed
qed

lemma rnd32_idem [simp]: "rnd32 (rnd32 x) = rnd32 x"
  by (simp add: rnd32_def round_to_idem)

lemma rnd64_idem [simp]: "rnd64 (rnd64 x) = rnd64 x"
  by (simp add: rnd64_def round_to_idem)

lemma rnd32_uminus: "rnd32 (- x) = - rnd32 x"
  by (simp add: rnd32_def round_to_uminus)

lemma rnd32_0 [simp]: "rnd32 0 = 0"
  by (simp add: rnd32_def)

lemma is_f32_rnd32 [simp]: "is_f32 (rnd32 x)"
  by (simp add: is_f32_def)

lemma is_f32_0 [simp]: "is_f32 0"
  by (simp add: is_f32_def)

lemma is_f32_uminus: "is_f32 x \<Longrightarrow> is_f32 (- x)"
  by (simp add: is_f32_def rnd32_uminus)

lemma incrementStep_val: "incrementStep = 13421773 / 2 ^ 28"
  by code_simp

lemma decayRate_val: "decayRate = 13421773 / 2 ^ 24"
  by code_simp

lemma zeroThreshold_val: "zeroThreshold = 10737418 / 2 ^ 30"
  by code_simp

lemma is_f32_1: "is_f32 1" "is_f32 (- 1)"
  by code_simp+

subsection \<open>Rounding returns a nearest representable number\<close>

lemma rne_nearest: "\<bar>of_int (rne q) - q\<bar> \<le> \<bar>of_int M - q\<bar>"
proof (cases "M = rne q")
  case True then show ?thesis by simp
next
  case False
  then have "1 \<le> \<bar>M - rne q\<bar>" by linarith
  then have "1 \<le> real_of_int \<bar>M - rne q\<bar>" by linarith
  then have "1 \<le> \<bar>real_of_int M - real_of_int (rne q)\<bar>" by simp
  then show ?thesis using rne_error [of q] by linarith
qed

lemma round_to_nearest_multiple:
  assumes "x \<noteq> 0"
  shows "\<bar>round_to p emin x - x\<bar> \<le> \<bar>of_int M * 2 powi (fexp p emin x) - x\<bar>"
proof -
  define u where "u = (2::real) powi (fexp p emin x)"
  have u: "0 < u" by (simp add: u_def)
  have s: "\<bar>of_int K * u - x\<bar> = \<bar>of_int K - x / u\<bar> * u" for K
  proof -
    have "of_int K * u - x = (of_int K - x / u) * u" using u by (simp add: field_simps)
    then show ?thesis using u by (simp add: abs_mult)
  qed
  have "\<bar>of_int (rne (x / u)) - x / u\<bar> * u \<le> \<bar>of_int M - x / u\<bar> * u"
    using rne_nearest [of "x / u" M] u by (simp only: mult_le_cancel_right_pos)
  then have "\<bar>of_int (rne (x / u)) * u - x\<bar> \<le> \<bar>of_int M * u - x\<bar>" by (simp only: s)
  then show ?thesis using assms by (simp add: round_to_def Let_def u_def)
qed

lemma round_to_nearest:
  assumes rep: "round_to p emin y = y" and p: "1 \<le> p"
  shows "\<bar>round_to p emin x - x\<bar> \<le> \<bar>y - x\<bar>"
proof (cases "x = 0")
  case True then show ?thesis by simp
next
  case x: False
  define e where "e = fexp p emin x"
  show ?thesis
  proof (cases "y = 0 \<or> e \<le> fexp p emin y")
    case True
    have "\<exists>M. y = of_int M * 2 powi e"
    proof (cases "y = 0")
      case True
      then have "y = of_int 0 * 2 powi e" by simp
      then show ?thesis ..
    next
      case False
      with True have le: "e \<le> fexp p emin y" by simp
      obtain N where N: "y = of_int N * 2 powi (fexp p emin y)"
        using round_to_of_int_mult [of p emin y] rep by auto
      have "(2::real) powi (fexp p emin y) = 2 powi (fexp p emin y - e) * 2 powi e"
        by (simp flip: power_int_add)
      also have "(2::real) powi (fexp p emin y - e) = of_int (2 ^ nat (fexp p emin y - e))"
        using le by (simp add: power_int_def)
      finally have "y = of_int (N * 2 ^ nat (fexp p emin y - e)) * 2 powi e" using N by simp
      then show ?thesis ..
    qed
    then obtain M where "y = of_int M * 2 powi e" ..
    then show ?thesis using round_to_nearest_multiple [OF x, of p emin M] by (simp add: e_def)
  next
    case False
    then have y: "y \<noteq> 0" and lt: "fexp p emin y < e" by simp_all
    have ax: "0 < \<bar>x\<bar>" and ay: "0 < \<bar>y\<bar>" using x y by simp_all
    have "emin < e" using lt fexp_ge_emin [of emin p y] by linarith
    then have e: "e = ilog2 \<bar>x\<bar> + 1 - p" by (simp add: e_def fexp_def max_def split: if_splits)
    have "ilog2 \<bar>y\<bar> + 1 - p \<le> fexp p emin y" by (simp add: fexp_def)
    then have il: "ilog2 \<bar>y\<bar> + 1 \<le> ilog2 \<bar>x\<bar>" using lt e by linarith
    define B where "B = (2::real) powi (ilog2 \<bar>x\<bar>)"
    have "\<bar>y\<bar> < 2 powi (ilog2 \<bar>y\<bar> + 1)" using ilog2_bounds(2) [OF ay] .
    also have "\<dots> \<le> B" unfolding B_def using il by (rule powi2_mono)
    finally have yB: "\<bar>y\<bar> < B" .
    have Bx: "B \<le> \<bar>x\<bar>" unfolding B_def using ilog2_bounds(1) [OF ax] .
    have "ilog2 \<bar>x\<bar> = (p - 1) + e" using e by simp
    then have "B = 2 powi (p - 1) * 2 powi e" unfolding B_def by (simp add: power_int_add)
    also have "(2::real) powi (p - 1) = of_int (2 ^ nat (p - 1))" using p by (simp add: power_int_def)
    finally have Bm: "B = of_int (2 ^ nat (p - 1)) * 2 powi e" .
    have "\<bar>round_to p emin x - x\<bar> \<le> \<bar>x\<bar> - B"
    proof (cases "0 < x")
      case True
      have "\<bar>round_to p emin x - x\<bar> \<le> \<bar>of_int (2 ^ nat (p - 1)) * 2 powi e - x\<bar>"
        unfolding e_def by (rule round_to_nearest_multiple [OF x])
      then show ?thesis using Bm Bx True by simp
    next
      case False
      have "\<bar>round_to p emin x - x\<bar> \<le> \<bar>of_int (- (2 ^ nat (p - 1))) * 2 powi e - x\<bar>"
        unfolding e_def by (rule round_to_nearest_multiple [OF x])
      moreover have "of_int (- (2 ^ nat (p - 1))) * 2 powi e = - B" using Bm by simp
      ultimately show ?thesis using Bx False x by simp
    qed
    also have "\<dots> < \<bar>x\<bar> - \<bar>y\<bar>" using yB by simp
    also have "\<dots> \<le> \<bar>y - x\<bar>" by simp
    finally show ?thesis by simp
  qed
qed

lemma rnd32_nearest: "is_f32 y \<Longrightarrow> \<bar>rnd32 x - x\<bar> \<le> \<bar>y - x\<bar>"
  unfolding is_f32_def rnd32_def by (rule round_to_nearest) simp_all

lemma rnd64_nearest: "rnd64 y = y \<Longrightarrow> \<bar>rnd64 x - x\<bar> \<le> \<bar>y - x\<bar>"
  unfolding rnd64_def by (rule round_to_nearest) simp_all

text \<open>The constants against their IEEE bit patterns: 0.1f is 3DCCCCCD, 0.05f is 3D4CCCCD,
  0.8f is 3F4CCCCD with significand CCCCCD = 13421773; 0.01f is 3C23D70A with significand
  A3D70A = 10737418; the double 0.1 is 3FB999999999999A.\<close>

lemma literal_values:
  "float_lit (1 / 10) = 13421773 / 2 ^ 27" "rnd64 (1 / 10) = 7205759403792794 / 2 ^ 56"
  "rnd32 (5 / 100) = incrementStep" "rnd32 (8 / 10) = decayRate" "rnd32 (1 / 100) = zeroThreshold"
  by code_simp+

lemma rne_tie_even: "x - of_int \<lfloor>x\<rfloor> = 1 / 2 \<Longrightarrow> even (rne x)"
  by (simp add: rne_def Let_def)

subsection \<open>The claims\<close>

text \<open>
  C3. The decay step: a nonzero value is multiplied by the decay rate (in \<^verbatim>\<open>float\<close>) and
  snapped to exactly 0 when its magnitude is below the zero threshold; a change is reported
  if and only if the value was nonzero before and the stored value differs from it; the value
  0 is left untouched and no change is reported.
\<close>

theorem C3_applyDecay_spec:
  "applyDecay v = spec_applyDecay v
   \<and> (fst (applyDecay v) =
        (if v = 0 then 0
         else if \<bar>fmul32 v decayRate\<bar> < zeroThreshold then 0 else fmul32 v decayRate))
   \<and> (snd (applyDecay v) \<longleftrightarrow> v \<noteq> 0 \<and> fst (applyDecay v) \<noteq> v)
   \<and> applyDecay 0 = (0, False)"
  by (simp add: applyDecay_def spec_applyDecay_def abs_macro_abs Let_def)

lemma applyTickDelta_range: "- 1 \<le> applyTickDelta d x \<and> applyTickDelta d x \<le> 1"
  by (simp add: applyTickDelta_def constrain_def Let_def)

lemma fmul32_decay_le_1:
  assumes "\<bar>x\<bar> \<le> 1"
  shows "\<bar>fmul32 x decayRate\<bar> \<le> 1"
proof (cases "x * decayRate = 0")
  case True
  have "fmul32 x decayRate = 0" unfolding fmul32_def True by simp
  then show ?thesis by simp
next
  case False
  have c: "\<bar>x * decayRate\<bar> \<le> 13421773 / 2 ^ 24"
    using assms by (simp add: decayRate_val abs_mult)
  then have "\<bar>x * decayRate\<bar> < 2 powi 0" by simp
  from round_to_abs_le(1) [OF False this, of "- 149" 24]
  have "\<bar>rnd32 (x * decayRate)\<bar> \<le> \<bar>x * decayRate\<bar> + 2 powi (- 24) / 2"
    by (simp add: rnd32_def)
  also have "\<dots> \<le> 13421773 / 2 ^ 24 + 2 powi (- 24) / 2" using c by simp
  also have "\<dots> \<le> 1" by (simp add: power_int_minus)
  finally show ?thesis by (simp add: fmul32_def)
qed

lemma applyDecay_range:
  assumes "\<bar>x\<bar> \<le> 1"
  shows "\<bar>fst (applyDecay x)\<bar> \<le> 1"
  using fmul32_decay_le_1 [OF assms] assms by (simp add: applyDecay_def Let_def)

lemma mutate_range: "\<bar>x\<bar> \<le> 1 \<Longrightarrow> \<bar>mutate m x\<bar> \<le> 1"
  using applyTickDelta_range applyDecay_range by (cases m) (auto simp: abs_le_iff)

lemma axis_trace_range:
  "\<bar>x\<bar> \<le> 1 \<Longrightarrow> list_all (\<lambda>v. - 1 \<le> v \<and> v \<le> 1) (axis_trace ms x)"
proof (induction ms arbitrary: x)
  case Nil then show ?case by (simp add: abs_le_iff)
next
  case (Cons m ms)
  from Cons.prems have "\<bar>mutate m x\<bar> \<le> 1" by (rule mutate_range)
  then show ?case using Cons.IH Cons.prems by (simp add: abs_le_iff)
qed

text \<open>
  C1. From the initial value 0, after every mutation of every sequence of tick updates and decay
  steps the axis value lies in the closed range from -1 to 1. The trace lists the value after
  each mutation.
\<close>

theorem C1_axis_in_range:
  "list_all (\<lambda>v. - 1 \<le> v \<and> v \<le> 1) (axis_trace ms 0)"
  by (rule axis_trace_range) simp

lemma is_f32_applyTickDelta: "is_f32 (applyTickDelta d x)"
  by (simp add: applyTickDelta_def constrain_def Let_def fsub32_def is_f32_1)

lemma is_f32_applyDecay: "is_f32 x \<Longrightarrow> is_f32 (fst (applyDecay x))"
  by (simp add: applyDecay_def Let_def fmul32_def)

text \<open>
  C10. After the decay step the axis value is exactly 0 or its magnitude is at least the zero
  threshold (the constant \<open>zeroThreshold\<close>, the \<^verbatim>\<open>float\<close> nearest to 0.01); this holds for
  the value a cycle leaves behind, and a frame dispatched in a cycle is computed from that value.
\<close>

theorem C10_no_value_inside_deadband:
  "(fst (applyDecay v) = 0 \<or> zeroThreshold \<le> \<bar>fst (applyDecay v)\<bar>)
   \<and> (joystickXFloat (fst (loop inp s)) = 0
        \<or> zeroThreshold \<le> \<bar>joystickXFloat (fst (loop inp s))\<bar>)
   \<and> (filter is_frame (snd (loop inp s)) = []
        \<or> filter is_frame (snd (loop inp s)) =
             [Joystick_X (xVal_of (joystickXFloat (fst (loop inp s)))), Joystick_Y 512,
              Joystick_send_now])"
proof -
  have a: "fst (applyDecay v) = 0 \<or> zeroThreshold \<le> \<bar>fst (applyDecay v)\<bar>" for v
    by (simp add: applyDecay_def Let_def abs_macro_abs)
  obtain enc lvl where inp: "inp = (enc, lvl)" by (cases inp)
  obtain s1 f1 where eb: "encoder_block enc (s\<lparr>button := update lvl (button s)\<rparr>) = (s1, f1)"
    by fastforce
  have k: "filter is_frame (key_block b) = []" for b
    by (simp add: key_block_def is_frame_def is_key_def)
  have l: "joystickXFloat (fst (loop inp s)) = fst (applyDecay (joystickXFloat s1))"
    by (simp add: loop_def inp eb decay_block_def Let_def split: prod.splits)
  show ?thesis
    using a [of v] a [of "joystickXFloat s1"]
    by (simp add: l) (auto simp add: loop_def inp eb decay_block_def hid_block_def Let_def k is_frame_def is_key_def split: prod.splits)
qed

text \<open>
  C7. In a cycle with tick delta zero and axis value exactly 0 no frame is dispatched: the
  flag \<^verbatim>\<open>joystickNeedsUpdate\<close> stays false, no \<^verbatim>\<open>Joystick\<close> call is made, and the axis value
  and the last-tick snapshot are unchanged.
\<close>

theorem C7_idle_cycle:
  assumes "enc - lastEncoder1Position s = 0" and "joystickXFloat s = 0"
  shows "filter is_frame (snd (loop (enc, lvl) s)) = []
         \<and> snd (decay_block (encoder_block enc (s\<lparr>button := update lvl (button s)\<rparr>))) = False
         \<and> joystickXFloat (fst (loop (enc, lvl) s)) = joystickXFloat s
         \<and> lastEncoder1Position (fst (loop (enc, lvl) s)) = lastEncoder1Position s"
proof -
  have e: "enc = lastEncoder1Position s" using assms(1) by simp
  have k: "filter is_frame (key_block b) = []" for b
    by (simp add: key_block_def is_frame_def is_key_def)
  show ?thesis
    using assms(2)
    by (simp add: loop_def e encoder_block_def decay_block_def applyDecay_def hid_block_def Let_def k)
qed

theorem C7_idle_cycle_witness:
  "(5 :: 32 word) - lastEncoder1Position (setup_state True\<lparr>lastEncoder1Position := 5\<rparr>) = 0
   \<and> joystickXFloat (setup_state True\<lparr>lastEncoder1Position := 5\<rparr>) = 0
   \<and> snd (loop (5, False) (setup_state True\<lparr>lastEncoder1Position := 5\<rparr>))
       = [Keyboard_press CHR '' '']
   \<and> filter is_frame (snd (loop (5, False) (setup_state True\<lparr>lastEncoder1Position := 5\<rparr>))) = []"
  using C7_idle_cycle [of 5 "setup_state True\<lparr>lastEncoder1Position := 5\<rparr>" False]
  by (simp add: setup_state_def loop_def encoder_block_def decay_block_def applyDecay_def
      hid_block_def key_block_def update_def fallingEdge_def risingEdge_def Let_def)

lemma clamp_lipschitz: "\<bar>clamp a lo hi - clamp b lo hi\<bar> \<le> \<bar>a - b\<bar>"
  by (auto simp: clamp_def max_def min_def abs_le_iff)

lemma rnd32_small_int:
  assumes "\<bar>n\<bar> < 2 ^ 24"
  shows "rnd32 (of_int n) = of_int n"
proof (cases "n = 0")
  case True then show ?thesis by simp
next
  case False
  have "real_of_int \<bar>n\<bar> < real_of_int (2 ^ 24)" using assms by (simp only: of_int_less_iff)
  then have "\<bar>real_of_int n\<bar> < 2 powi 24" by simp
  then have "fexp 24 (- 149) (of_int n) \<le> max (24 - 24) (- 149)"
    using False by (intro fexp_le) simp_all
  then have "fexp 24 (- 149) (of_int n) \<le> 0" by simp
  then show ?thesis unfolding rnd32_def
    by (intro round_to_exact [where m = n and j = 0]) simp_all
qed

lemma rnd32_abs_error:
  assumes "\<bar>x\<bar> < 2 powi k" "- 125 \<le> k"
  shows "\<bar>rnd32 x - x\<bar> \<le> 2 powi (k - 25)"
proof (cases "x = 0")
  case True then show ?thesis by simp
next
  case False
  have "\<bar>rnd32 x - x\<bar> \<le> 2 powi (k - 24) / 2"
    unfolding rnd32_def using assms by (intro round_to_abs_le(2) [OF False]) simp_all
  also have "\<dots> = 2 powi (k - 25)"
    by (simp add: power_int_diff)
  finally show ?thesis .
qed

lemma rnd32_rel_error:
  assumes "2 powi (- 126) \<le> \<bar>x\<bar>"
  shows "\<bar>rnd32 x - x\<bar> \<le> \<bar>x\<bar> / 2 ^ 24"
  using round_to_rel_error [of "- 149" 24 x] assms
  by (simp add: rnd32_def power_int_minus field_simps)

lemma tick_accuracy_small:
  assumes v: "\<bar>v\<bar> \<le> 1" and n: "\<bar>n\<bar> \<le> 64"
  shows "\<bar>fsub32 v (fmul32 (int_to_f32 n) incrementStep) - (v - of_int n * (5 / 100))\<bar> \<le> 1 / 10 ^ 6"
proof -
  define s where "s = incrementStep"
  define p where "p = rnd32 (of_int n * s)"
  have nf: "int_to_f32 n = of_int n" unfolding int_to_f32_def using n by (intro rnd32_small_int) simp
  have rn: "\<bar>real_of_int n\<bar> \<le> 64" using n by linarith
  have sv: "s = 13421773 / 2 ^ 28" by (simp add: s_def incrementStep_val)
  have ns: "\<bar>of_int n * s\<bar> \<le> 64 * (13421773 / 2 ^ 28)"
    unfolding abs_mult sv using rn by simp
  then have "\<bar>of_int n * s\<bar> < 2 powi 2" by simp
  then have e1: "\<bar>p - of_int n * s\<bar> \<le> 2 powi (2 - 25)" unfolding p_def by (rule rnd32_abs_error) simp
  have e0: "\<bar>of_int n * s - of_int n * (5 / 100)\<bar> \<le> 64 * (1 / 2 ^ 30)"
  proof -
    have d: "\<bar>s - 5 / 100\<bar> \<le> 1 / 2 ^ 30" by (simp add: sv)
    have "of_int n * s - of_int n * (5 / 100) = of_int n * (s - 5 / 100)" by (simp add: algebra_simps)
    then have "\<bar>of_int n * s - of_int n * (5 / 100)\<bar> = \<bar>real_of_int n\<bar> * \<bar>s - 5 / 100\<bar>"
      by (simp only: abs_mult)
    also have "\<dots> \<le> 64 * (1 / 2 ^ 30)"
      using rn d by (intro mult_mono) simp_all
    finally show ?thesis .
  qed
  have e1': "\<bar>p - of_int n * s\<bar> \<le> 1 / 2 ^ 23" using e1 by (simp add: power_int_minus)
  have ns': "\<bar>of_int n * s\<bar> \<le> 7 / 2" using ns by simp
  have "\<bar>p - of_int n * s\<bar> \<le> 1 / 2" using e1' by simp
  then have pb: "\<bar>p\<bar> \<le> 4" using ns' by linarith
  then have "\<bar>v - p\<bar> < 8" using v by linarith
  then have "\<bar>v - p\<bar> < 2 powi 3" by simp
  then have e2: "\<bar>rnd32 (v - p) - (v - p)\<bar> \<le> 2 powi (3 - 25)" by (rule rnd32_abs_error) simp
  have e2': "\<bar>rnd32 (v - p) - (v - p)\<bar> \<le> 1 / 2 ^ 22" using e2 by (simp add: power_int_minus)
  have "\<bar>rnd32 (v - p) - (v - of_int n * (5 / 100))\<bar> \<le> 1 / 2 ^ 22 + 1 / 2 ^ 23 + 64 * (1 / 2 ^ 30)"
    using e0 e1' e2' by linarith
  also have "\<dots> \<le> 1 / 10 ^ 6" by simp
  finally show ?thesis by (simp add: fsub32_def fmul32_def nf p_def s_def)
qed


lemma tick_saturates_pos:
  assumes v: "\<bar>v\<bar> \<le> 1" and n: "65 \<le> n"
  shows "fsub32 v (fmul32 (int_to_f32 n) incrementStep) < - 1"
proof -
  define nf where "nf = rnd32 (of_int n)"
  define a where "a = nf * (13421773 / 2 ^ 28)"
  define p where "p = rnd32 a"
  define b where "b = v - p"
  have rn: "65 \<le> real_of_int n" using n by linarith
  have "2 powi (- 126) \<le> (1::real)" by (simp add: power_int_minus field_simps)
  then have small: "2 powi (- 126) \<le> \<bar>x\<bar>" if "1 \<le> \<bar>x\<bar>" for x :: real
    using that by linarith
  have "\<bar>nf - of_int n\<bar> \<le> \<bar>real_of_int n\<bar> / 2 ^ 24"
    unfolding nf_def using rn by (intro rnd32_rel_error small) simp
  then have "\<bar>nf - of_int n\<bar> \<le> real_of_int n / 16777216" using rn by simp
  then have nf: "64 \<le> nf" using rn by linarith
  then have a: "16 / 5 \<le> a" by (simp add: a_def)
  have "\<bar>p - a\<bar> \<le> \<bar>a\<bar> / 2 ^ 24"
    unfolding p_def using a by (intro rnd32_rel_error small) simp
  then have "\<bar>p - a\<bar> \<le> a / 16777216" using a by simp
  then have pl: "31 / 10 \<le> p" using a by linarith
  then have b: "b \<le> - 21 / 10" using v by (simp add: b_def)
  have "\<bar>rnd32 b - b\<bar> \<le> \<bar>b\<bar> / 2 ^ 24"
    using b by (intro rnd32_rel_error small) simp
  then have "\<bar>rnd32 b - b\<bar> \<le> - b / 16777216" using b by simp
  then have "rnd32 b < - 1" using b by linarith
  then show ?thesis
    by (simp add: fsub32_def fmul32_def int_to_f32_def incrementStep_val b_def p_def a_def nf_def)
qed

lemma tick_saturates_neg:
  assumes v: "\<bar>v\<bar> \<le> 1" and n: "n \<le> - 65"
  shows "1 < fsub32 v (fmul32 (int_to_f32 n) incrementStep)"
proof -
  have "fsub32 (- v) (fmul32 (int_to_f32 (- n)) incrementStep) < - 1"
    using v n by (intro tick_saturates_pos) simp_all
  moreover have "fsub32 (- v) (fmul32 (int_to_f32 (- n)) incrementStep)
                 = - fsub32 v (fmul32 (int_to_f32 n) incrementStep)"
  proof -
    define p where "p = rnd32 (rnd32 (of_int n) * incrementStep)"
    have "rnd32 (rnd32 (of_int (- n)) * incrementStep) = - p"
      by (simp add: rnd32_uminus p_def)
    moreover have "rnd32 (- v - (- p)) = - rnd32 (v - p)"
      using rnd32_uminus [of "v - p"] by simp
    ultimately show ?thesis
      by (simp only: fsub32_def fmul32_def int_to_f32_def p_def)
  qed
  ultimately show ?thesis by simp
qed

lemma tick_accuracy:
  assumes v: "\<bar>v\<bar> \<le> 1"
  shows "\<bar>applyTickDelta d v - clamp (v - of_int (sint d) * (5 / 100)) (- 1) 1\<bar> \<le> 1 / 10 ^ 6"
proof -
  define n where "n = sint d"
  define r where "r = fsub32 v (fmul32 (int_to_f32 n) incrementStep)"
  have A: "applyTickDelta d v = clamp r (- 1) 1"
    by (simp add: applyTickDelta_def Let_def constrain_clamp r_def n_def)
  consider "\<bar>n\<bar> \<le> 64" | "65 \<le> n" | "n \<le> - 65" by linarith
  then show ?thesis
  proof cases
    case 1
    have "\<bar>clamp r (- 1) 1 - clamp (v - of_int n * (5 / 100)) (- 1) 1\<bar>
          \<le> \<bar>r - (v - of_int n * (5 / 100))\<bar>" by (rule clamp_lipschitz)
    also have "\<dots> \<le> 1 / 10 ^ 6" unfolding r_def using v 1 by (rule tick_accuracy_small)
    finally show ?thesis by (simp add: A n_def)
  next
    case 2
    have "r < - 1" unfolding r_def using v 2 by (rule tick_saturates_pos)
    moreover have "v - of_int n * (5 / 100) < - 1" using v 2 by simp
    ultimately show ?thesis by (simp add: A n_def [symmetric] clamp_def)
  next
    case 3
    have "1 < r" unfolding r_def using v 3 by (rule tick_saturates_neg)
    moreover have "1 < v - of_int n * (5 / 100)" using v 3 by simp
    ultimately show ?thesis by (simp add: A n_def [symmetric] clamp_def)
  qed
qed

lemma tick_from_rest:
  "applyTickDelta d 0 = clamp (- fmul32 (int_to_f32 (sint d)) incrementStep) (- 1) 1"
  by (simp add: applyTickDelta_def Let_def constrain_clamp fsub32_def fmul32_def rnd32_uminus)

text \<open>No intermediate result of the tick update comes near the largest \<^verbatim>\<open>float\<close>
  (about \<open>2\<^sup>1\<^sup>2\<^sup>8\<close>), so leaving overflow out of the model loses nothing. The other
  operations of the loop stay below 1024.\<close>

lemma tick_intermediates_finite:
  assumes "\<bar>x\<bar> \<le> 1"
  shows "\<bar>int_to_f32 (sint (d :: 32 word))\<bar> < 2 ^ 32
         \<and> \<bar>fmul32 (int_to_f32 (sint d)) incrementStep\<bar> < 2 ^ 32
         \<and> \<bar>fsub32 x (fmul32 (int_to_f32 (sint d)) incrementStep)\<bar> < 2 ^ 32"
proof -
  define n where "n = real_of_int (sint d)"
  define nf where "nf = rnd32 n"
  define a where "a = nf * (13421773 / 2 ^ 28)"
  define p where "p = rnd32 a"
  have "- 2147483648 \<le> sint d" "sint d < 2147483648" using sint_ge [of d] sint_lt [of d] by simp_all
  then have n: "\<bar>n\<bar> \<le> 2147483648" unfolding n_def by linarith
  then have "\<bar>n\<bar> < 2 powi 32" by simp
  then have "\<bar>nf - n\<bar> \<le> 2 powi (32 - 25)" unfolding nf_def by (rule rnd32_abs_error) simp
  then have "\<bar>nf - n\<bar> \<le> 128" by simp
  then have nf: "\<bar>nf\<bar> \<le> 2 ^ 31 + 2 ^ 7" using n by simp
  have "\<bar>a\<bar> = \<bar>nf\<bar> * (13421773 / 2 ^ 28)" by (simp add: a_def abs_mult)
  then have a: "\<bar>a\<bar> \<le> 2 ^ 28" using nf by simp
  then have "\<bar>a\<bar> < 2 powi 29" by simp
  then have "\<bar>p - a\<bar> \<le> 2 powi (29 - 25)" unfolding p_def by (rule rnd32_abs_error) simp
  then have p: "\<bar>p\<bar> \<le> 2 ^ 28 + 2 ^ 4" using a by simp
  then have "\<bar>x - p\<bar> < 2 powi 30" using assms by simp
  then have "\<bar>rnd32 (x - p) - (x - p)\<bar> \<le> 2 powi (30 - 25)" by (rule rnd32_abs_error) simp
  then have r: "\<bar>rnd32 (x - p)\<bar> \<le> 2 ^ 28 + 2 ^ 4 + 1 + 2 ^ 5" using p assms by simp
  have 1: "int_to_f32 (sint d) = nf" by (simp only: int_to_f32_def nf_def n_def)
  have 2: "fmul32 (int_to_f32 (sint d)) incrementStep = p"
    by (simp only: 1 fmul32_def p_def a_def incrementStep_val)
  have 3: "fsub32 x (fmul32 (int_to_f32 (sint d)) incrementStep) = rnd32 (x - p)"
    by (simp only: 2 fsub32_def)
  have c1: "\<bar>int_to_f32 (sint d)\<bar> < 2 ^ 32" unfolding 1 using nf by simp
  have c2: "\<bar>fmul32 (int_to_f32 (sint d)) incrementStep\<bar> < 2 ^ 32" unfolding 2 using p by simp
  have c3: "\<bar>fsub32 x (fmul32 (int_to_f32 (sint d)) incrementStep)\<bar> < 2 ^ 32"
    unfolding 3 using r by simp
  show ?thesis by (intro conjI c1 c2 c3)
qed

text \<open>
  C2. When the encoder has moved by a nonzero delta \<open>d\<close> and the axis value \<open>v\<close> is in the range
  from -1 to 1, the tick update stores \<open>clamp (v - d * incrementStep) (-1) 1\<close>, computed in
  \<^verbatim>\<open>float\<close>, and sets the flag, whatever the clamp does; the stored value is within \<open>10\<^sup>-\<^sup>6\<close>
  of the exact \<open>clamp (v - d * 0.05) (-1) 1\<close>. From rest the value is
  \<open>clamp (- d * incrementStep) (-1) 1\<close>.
\<close>

theorem C2_tick_update:
  assumes "d \<noteq> 0" and "\<bar>joystickXFloat s\<bar> \<le> 1"
  shows "encoder_block (lastEncoder1Position s + d) s =
           (s\<lparr>encoder1Position := lastEncoder1Position s + d,
              lastEncoder1Position := lastEncoder1Position s + d,
              joystickXFloat :=
                clamp (fsub32 (joystickXFloat s) (fmul32 (int_to_f32 (sint d)) incrementStep))
                  (- 1) 1\<rparr>, True)
         \<and> \<bar>joystickXFloat (fst (encoder_block (lastEncoder1Position s + d) s))
              - clamp (joystickXFloat s - of_int (sint d) * (5 / 100)) (- 1) 1\<bar> \<le> 1 / 10 ^ 6
         \<and> applyTickDelta d 0 = clamp (- fmul32 (int_to_f32 (sint d)) incrementStep) (- 1) 1
         \<and> \<bar>applyTickDelta d 0 - clamp (- of_int (sint d) * (5 / 100)) (- 1) 1\<bar> \<le> 1 / 10 ^ 6"
proof -
  have e: "encoder_block (lastEncoder1Position s + d) s =
           (s\<lparr>encoder1Position := lastEncoder1Position s + d,
              lastEncoder1Position := lastEncoder1Position s + d,
              joystickXFloat := applyTickDelta d (joystickXFloat s)\<rparr>, True)"
    using assms(1) by (simp add: encoder_block_def Let_def)
  have c: "applyTickDelta d x =
           clamp (fsub32 x (fmul32 (int_to_f32 (sint d)) incrementStep)) (- 1) 1" for x
    by (simp add: applyTickDelta_def Let_def constrain_clamp)
  show ?thesis
    using tick_accuracy [OF assms(2), of d] tick_accuracy [of 0 d] tick_from_rest [of d]
    by (simp add: e c)
qed

theorem C2_tick_update_witness:
  "(- 3 :: 32 word) \<noteq> 0
   \<and> \<bar>joystickXFloat (setup_state True\<lparr>joystickXFloat := 1\<rparr>)\<bar> \<le> 1
   \<and> encoder_block (lastEncoder1Position (setup_state True\<lparr>joystickXFloat := 1\<rparr>) + (- 3))
         (setup_state True\<lparr>joystickXFloat := 1\<rparr>)
       = (setup_state True\<lparr>encoder1Position := - 3, lastEncoder1Position := - 3,
            joystickXFloat := 1\<rparr>, True)"
proof -
  have h1: "(- 3 :: 32 word) \<noteq> 0" by simp
  have h2: "\<bar>joystickXFloat (setup_state True\<lparr>joystickXFloat := 1\<rparr>)\<bar> \<le> 1"
    by (simp add: setup_state_def)
  have v: "clamp (fsub32 1 (fmul32 (int_to_f32 (sint (- 3 :: 32 word))) incrementStep)) (- 1) 1 = 1"
    by code_simp
  show ?thesis using C2_tick_update [OF h1 h2] v by (simp add: setup_state_def)
qed

lemma scenario_tick: "applyTickDelta (- 2) 0 = 13421773 / 2 ^ 27"
  by code_simp

lemma scenario_tick_lit: "float_lit (1 / 10) = 13421773 / 2 ^ 27"
  by code_simp

lemma scenario_decay: "fst (applyDecay (13421773 / 2 ^ 27)) = 10737419 / 2 ^ 27"
  by code_simp

lemma scenario_decay_flag: "snd (applyDecay (13421773 / 2 ^ 27)) = True"
  by code_simp

lemma scenario_xVal: "xVal_of (10737419 / 2 ^ 27) = 553"
  by code_simp

lemma scenario_xVal_raw: "xVal_raw (10737419 / 2 ^ 27) = 553"
  by code_simp


lemma scenario_loop:
  "loop (- 2, True) (setup_state True) =
     (setup_state True\<lparr>encoder1Position := - 2, lastEncoder1Position := - 2,
        joystickXFloat := 10737419 / 2 ^ 27\<rparr>,
      [Joystick_X 553, Joystick_Y 512, Joystick_send_now])"
  by code_simp

text \<open>
  C8. From axis value 0 a tick delta of -2 gives the \<^verbatim>\<open>float\<close> nearest to 0.10; one decay step
  on it gives 0.08 to eight decimal places (the \<^verbatim>\<open>float\<close> \<open>10737419 / 2\<^sup>2\<^sup>7\<close>); the frame value
  mapped from it is 553, and the cycle that does both dispatches the frame (553, 512).
\<close>

theorem C8_scenario:
  "applyTickDelta (- 2) 0 = float_lit (1 / 10)
   \<and> \<bar>applyTickDelta (- 2) 0 - 1 / 10\<bar> \<le> 1 / 10 ^ 8
   \<and> fst (applyDecay (applyTickDelta (- 2) 0)) = 10737419 / 2 ^ 27
   \<and> \<bar>fst (applyDecay (applyTickDelta (- 2) 0)) - 8 / 100\<bar> \<le> 1 / 10 ^ 8
   \<and> xVal_of (fst (applyDecay (applyTickDelta (- 2) 0))) = 553
   \<and> loop (- 2, True) (setup_state True) =
       (setup_state True\<lparr>encoder1Position := - 2, lastEncoder1Position := - 2,
          joystickXFloat := 10737419 / 2 ^ 27\<rparr>,
        [Joystick_X 553, Joystick_Y 512, Joystick_send_now])"
proof -
  have t: "applyTickDelta (- 2) 0 = 13421773 / 2 ^ 27" by (rule scenario_tick)
  have d: "fst (applyDecay (applyTickDelta (- 2) 0)) = 10737419 / 2 ^ 27"
    unfolding t by (rule scenario_decay)
  have 1: "applyTickDelta (- 2) 0 = float_lit (1 / 10)"
    unfolding t scenario_tick_lit by (rule refl)
  have 2: "\<bar>applyTickDelta (- 2) 0 - 1 / 10\<bar> \<le> 1 / 10 ^ 8"
    unfolding t by simp
  have 4: "\<bar>fst (applyDecay (applyTickDelta (- 2) 0)) - 8 / 100\<bar> \<le> 1 / 10 ^ 8"
    unfolding d by simp
  have 5: "xVal_of (fst (applyDecay (applyTickDelta (- 2) 0))) = 553"
    unfolding d by (rule scenario_xVal)
  show ?thesis
    by (intro conjI) (rule 1, rule 2, rule d, rule 4, rule 5, rule scenario_loop)
qed

lemma key_block_frames: "filter is_key (key_block b) = key_block b"
  by (simp add: key_block_def is_key_def)

lemma hid_block_keys: "filter is_key (hid_block sf) = []"
  by (simp add: hid_block_def is_key_def Let_def split: prod.splits)

lemma loop_keys:
  "filter is_key (snd (loop (enc, lvl) s)) = key_block (update lvl (button s))"
  by (simp add: loop_def Let_def hid_block_keys key_block_frames)

lemma encoder_block_button: "button (fst (encoder_block enc s)) = button s"
  by (simp add: encoder_block_def Let_def)

lemma decay_block_button: "button (fst (decay_block sf)) = button (fst sf)"
  by (simp add: decay_block_def Let_def split: prod.splits)

lemma loop_button: "button (fst (loop (enc, lvl) s)) = update lvl (button s)"
  by (simp add: loop_def Let_def decay_block_button encoder_block_button)

lemma run_keys:
  "filter is_key (snd (run inps s)) = key_trace (map snd inps) (button s)"
proof (induction inps arbitrary: s)
  case Nil then show ?case by simp
next
  case (Cons i inps)
  obtain enc lvl where i: "i = (enc, lvl)" by (cases i)
  obtain s1 ev where l: "loop (enc, lvl) s = (s1, ev)" by fastforce
  have k: "filter is_key ev = key_block (update lvl (button s))"
    using loop_keys [of enc lvl s] by (simp add: l)
  have b: "button s1 = update lvl (button s)"
    using loop_button [of enc lvl s] by (simp add: l)
  show ?case using Cons.IH [of s1] by (cases "run inps s1") (simp add: i l k b)
qed

lemma key_block_cong: "state b = state b' \<Longrightarrow> stateChanged b = stateChanged b' \<Longrightarrow> key_block b = key_block b'"
  by (simp add: key_block_def fallingEdge_def risingEdge_def)

lemma key_trace_state: "state b = state b' \<Longrightarrow> key_trace ls b = key_trace ls b'"
proof (induction ls arbitrary: b b')
  case Nil then show ?case by simp
next
  case (Cons l ls)
  have "update l b = update l b'" using Cons.prems by (simp add: update_def)
  then show ?case by simp
qed

lemma key_trace_hold:
  "state b = l \<Longrightarrow> key_trace (replicate n l @ rest) b = key_trace rest b"
proof (induction n arbitrary: b)
  case 0 then show ?case by simp
next
  case (Suc n)
  have k: "key_block (update l b) = []"
    using Suc.prems by (simp add: key_block_def update_def fallingEdge_def risingEdge_def)
  have s: "state (update l b) = l" by (simp add: update_def)
  have "key_trace (replicate n l @ rest) (update l b) = key_trace rest (update l b)"
    using s by (rule Suc.IH)
  also have "\<dots> = key_trace rest b"
    by (rule key_trace_state) (simp add: s Suc.prems)
  finally show ?case by (simp add: k)
qed

lemma key_trace_press_release:
  assumes "state b"
  shows "key_trace (replicate a True @ replicate (Suc h) False @ replicate (Suc c) True) b
         = [Keyboard_press CHR '' '', Keyboard_release CHR '' '']"
proof -
  define b1 where "b1 = update False b"
  define b2 where "b2 = update True b1"
  have 1: "key_block b1 = [Keyboard_press CHR '' '']"
    using assms by (simp add: b1_def key_block_def update_def fallingEdge_def risingEdge_def)
  have 2: "key_block b2 = [Keyboard_release CHR '' '']"
    by (simp add: b2_def b1_def key_block_def update_def fallingEdge_def risingEdge_def)
  have "key_trace (replicate a True @ replicate (Suc h) False @ replicate (Suc c) True) b
        = key_trace (replicate (Suc h) False @ replicate (Suc c) True) b"
    using assms by (intro key_trace_hold) simp
  also have "\<dots> = key_block b1 @ key_trace (replicate h False @ replicate (Suc c) True) b1"
    by (simp add: b1_def)
  also have "key_trace (replicate h False @ replicate (Suc c) True) b1
             = key_trace (replicate (Suc c) True) b1"
    by (intro key_trace_hold) (simp add: b1_def update_def)
  also have "\<dots> = key_block b2 @ key_trace (replicate c True @ []) b2"
    by (simp add: b2_def)
  also have "key_trace (replicate c True @ []) b2 = key_trace [] b2"
    by (intro key_trace_hold) (simp add: b2_def update_def)
  finally show ?thesis by (simp add: 1 2)
qed

text \<open>
  C6. When the debounced level of the switch is released, then pressed for one or more cycles,
  then released again, the loop emits exactly one key-down followed by exactly one key-up and
  no other key event, for any number of cycles in each phase and any encoder readings. The
  bounces inside the debounce window are removed by the switch source before the loop sees
  the level.
\<close>

theorem C6_one_press_one_release:
  assumes "state (button s)"
    and "map snd inps = replicate a True @ replicate (Suc h) False @ replicate (Suc c) True"
  shows "filter is_key (snd (run inps s)) = [Keyboard_press CHR '' '', Keyboard_release CHR '' '']"
  using key_trace_press_release [OF assms(1)] by (simp add: run_keys assms(2))

theorem C6_one_press_one_release_witness:
  "state (button (setup_state True))
   \<and> map snd [(0 :: 32 word, True), (1, False), (1, False), (2, True)]
       = replicate (Suc 0) True @ replicate (Suc (Suc 0)) False @ replicate (Suc 0) True
   \<and> filter is_key (snd (run [(0, True), (1, False), (1, False), (2, True)] (setup_state True)))
       = [Keyboard_press CHR '' '', Keyboard_release CHR '' '']"
  using C6_one_press_one_release
    [of "setup_state True" "[(0, True), (1, False), (1, False), (2, True)]" "Suc 0" "Suc 0" 0]
  by (simp add: setup_state_def)

subsection \<open>The frame value\<close>

lemma rnd64_exact_grid:
  assumes "x = of_int m * 2 powi j" "\<bar>x\<bar> < 2 powi k" "k - 53 \<le> j" "- 1074 \<le> j"
  shows "rnd64 x = x"
proof (cases "x = 0")
  case True then show ?thesis by (simp add: rnd64_def)
next
  case False
  have "fexp 53 (- 1074) x \<le> max (k - 53) (- 1074)" using False assms(2) by (rule fexp_le)
  then have "fexp 53 (- 1074) x \<le> j" using assms(3,4) by simp
  with assms(1) show ?thesis unfolding rnd64_def by (rule round_to_exact)
qed

lemma rnd64_abs_error:
  assumes "\<bar>x\<bar> < 2 powi k" "- 1021 \<le> k"
  shows "\<bar>rnd64 x - x\<bar> \<le> 2 powi (k - 54)"
proof (cases "x = 0")
  case True then show ?thesis by (simp add: rnd64_def)
next
  case False
  have "\<bar>rnd64 x - x\<bar> \<le> 2 powi (k - 53) / 2"
    unfolding rnd64_def using assms by (intro round_to_abs_le(2) [OF False]) simp_all
  also have "\<dots> = 2 powi (k - 54)"
    by (simp add: power_int_diff)
  finally show ?thesis .
qed

lemma is_f32_mantissa:
  assumes "is_f32 v"
  shows "\<exists>N. v = of_int N * 2 powi (fexp 24 (- 149) v)"
  using round_to_of_int_mult [of 24 "- 149" v] assms by (simp add: is_f32_def rnd32_def)

lemma is_f32_grid:
  assumes "is_f32 v" "2 powi k \<le> \<bar>v\<bar>" "j \<le> k - 23"
  shows "\<exists>M. v = of_int M * 2 powi j"
proof -
  define e where "e = fexp 24 (- 149) v"
  obtain N where N: "v = of_int N * 2 powi e" using is_f32_mantissa [OF assms(1)] e_def by blast
  have "k + 1 - 24 \<le> e" unfolding e_def using assms(2) by (rule fexp_ge)
  then have je: "j \<le> e" using assms(3) by simp
  have "(2::real) powi e = 2 powi (e - j) * 2 powi j" by (simp flip: power_int_add)
  also have "(2::real) powi (e - j) = of_int (2 ^ nat (e - j))" using je by (simp add: power_int_def)
  finally have "v = of_int (N * 2 ^ nat (e - j)) * 2 powi j" using N by simp
  then show ?thesis ..
qed

lemma dmul_511_exact:
  assumes "is_f32 v"
  shows "dmul v 511 = v * 511"
proof (cases "v = 0")
  case True then show ?thesis by (simp add: dmul_def rnd64_def)
next
  case False
  define e where "e = fexp 24 (- 149) v"
  obtain N where N: "v = of_int N * 2 powi e" using is_f32_mantissa [OF assms] e_def by blast
  have av: "0 < \<bar>v\<bar>" using False by simp
  have e1: "ilog2 \<bar>v\<bar> + 1 - 24 \<le> e" and e2: "- 149 \<le> e" by (simp_all add: e_def fexp_def)
  have "\<bar>v * 511\<bar> = \<bar>v\<bar> * 511" by (simp add: abs_mult)
  also have "\<dots> < 2 powi (ilog2 \<bar>v\<bar> + 1) * 2 powi 9"
    using ilog2_bounds(2) [OF av] av by (intro mult_strict_mono) simp_all
  also have "\<dots> = 2 powi (ilog2 \<bar>v\<bar> + 10)"
    using power_int_add [of "2::real" "ilog2 \<bar>v\<bar> + 1" 9] by (simp add: add.commute)
  finally have b: "\<bar>v * 511\<bar> < 2 powi (ilog2 \<bar>v\<bar> + 10)" .
  have e1': "ilog2 \<bar>v\<bar> + 10 - 53 \<le> e" and e2': "- 1074 \<le> e" using e1 e2 by linarith+
  have "v * 511 = of_int (N * 511) * 2 powi e" using N by simp
  then show ?thesis unfolding dmul_def using b e1' e2' by (rule rnd64_exact_grid)
qed

lemma xVal_raw_large:
  assumes f: "is_f32 v" and v1: "\<bar>v\<bar> \<le> 1" and v2: "2 powi (- 11) \<le> \<bar>v\<bar>"
  shows "xVal_raw v = \<lfloor>512 + v * 511 + 1 / 2\<rfloor>"
proof -
  obtain M where M: "v = of_int M * 2 powi (- 34)"
    using is_f32_grid [OF f v2, of "- 34"] by auto
  define y where "y = 512 + v * 511"
  have u: "(2::real) powi (- 34) * 2 ^ 34 = 1" by (simp add: power_int_minus)
  have yr: "1 \<le> y" "y \<le> 1023" using v1 by (simp_all add: y_def abs_le_iff)
  have yg: "y = of_int (512 * 2 ^ 34 + M * 511) * 2 powi (- 34)"
    using u by (simp add: y_def M algebra_simps)
  have "\<bar>y\<bar> < 2 powi 10" using yr by simp
  with yg have ry: "rnd64 y = y" by (rule rnd64_exact_grid) simp_all
  have zg: "y + 1 / 2 = of_int (512 * 2 ^ 34 + M * 511 + 2 ^ 33) * 2 powi (- 34)"
    using u by (simp add: yg algebra_simps power_int_minus)
  have "\<bar>y + 1 / 2\<bar> < 2 powi 11" using yr by simp
  with zg have rz: "rnd64 (y + 1 / 2) = y + 1 / 2" by (rule rnd64_exact_grid) simp_all
  have "xVal_raw v = round_macro (rnd64 y)"
    by (simp add: xVal_raw_def dadd_def dmul_511_exact [OF f] y_def)
  also have "\<dots> = \<lfloor>y + 1 / 2\<rfloor>"
    using yr by (simp add: ry round_macro_def dadd_def rz to_long_def)
  finally show ?thesis by (simp add: y_def)
qed

lemma xVal_raw_small:
  assumes f: "is_f32 v" and v2: "\<bar>v\<bar> < 2 powi (- 11)"
  shows "xVal_raw v = \<lfloor>512 + v * 511 + 1 / 2\<rfloor>"
proof -
  define y where "y = 512 + v * 511"
  define y' where "y' = rnd64 y"
  define z' where "z' = rnd64 (y' + 1 / 2)"
  have "\<bar>v\<bar> < 1 / 2048" using v2 by (simp add: power_int_minus)
  then have yr: "511 + 3 / 4 < y" "y < 512 + 1 / 4" by (simp_all add: y_def abs_less_iff)
  then have "\<bar>y\<bar> < 2 powi 10" by simp
  then have "\<bar>y' - y\<bar> \<le> 2 powi (10 - 54)" unfolding y'_def by (rule rnd64_abs_error) simp
  then have "\<bar>y' - y\<bar> \<le> 1 / 100" by (simp add: power_int_minus)
  then have y'r: "511 + 7 / 10 < y'" "y' < 512 + 3 / 10" using yr by linarith+
  then have "\<bar>y' + 1 / 2\<bar> < 2 powi 10" by simp
  then have "\<bar>z' - (y' + 1 / 2)\<bar> \<le> 2 powi (10 - 54)" unfolding z'_def by (rule rnd64_abs_error) simp
  then have "\<bar>z' - (y' + 1 / 2)\<bar> \<le> 1 / 100" by (simp add: power_int_minus)
  then have z'r: "512 < z'" "z' < 513" using y'r by linarith+
  then have fz: "\<lfloor>z'\<rfloor> = 512" by linarith
  have "xVal_raw v = round_macro y'"
    by (simp add: xVal_raw_def dadd_def dmul_511_exact [OF f] y_def y'_def)
  also have "\<dots> = 512"
    using y'r z'r fz by (simp add: round_macro_def dadd_def to_long_def z'_def)
  also have "512 = \<lfloor>y + 1 / 2\<rfloor>" using yr by linarith
  finally show ?thesis by (simp add: y_def)
qed

lemma xVal_raw_exact:
  assumes "is_f32 v" "\<bar>v\<bar> \<le> 1"
  shows "xVal_raw v = \<lfloor>512 + v * 511 + 1 / 2\<rfloor>"
  using xVal_raw_large [OF assms] xVal_raw_small [OF assms(1)] by linarith

lemma xVal_raw_range:
  assumes "is_f32 v" "\<bar>v\<bar> \<le> 1"
  shows "1 \<le> xVal_raw v" "xVal_raw v \<le> 1023"
proof -
  have "1 + 1 / 2 \<le> 512 + v * 511 + 1 / 2" "512 + v * 511 + 1 / 2 \<le> 1023 + 1 / 2"
    using assms(2) by (simp_all add: abs_le_iff)
  then have "1 \<le> \<lfloor>512 + v * 511 + 1 / 2\<rfloor>" "\<lfloor>512 + v * 511 + 1 / 2\<rfloor> \<le> 1023"
    by linarith+
  then show "1 \<le> xVal_raw v" "xVal_raw v \<le> 1023"
    by (simp_all add: xVal_raw_exact [OF assms])
qed

lemma xVal_of_spec:
  assumes "is_f32 v" "\<bar>v\<bar> \<le> 1"
  shows "xVal_of v = spec_xVal v"
proof -
  have "0 \<le> 512 + v * 511" using assms(2) by (simp add: abs_le_iff)
  then have "round_nearest (512 + v * 511) = xVal_raw v"
    by (simp add: round_nearest_def xVal_raw_exact [OF assms])
  then show ?thesis
    using xVal_raw_range [OF assms]
    by (simp add: xVal_of_def spec_xVal_def constrain_def clamp_int_def)
qed

lemma axis_ok_abs: "axis_ok v \<longleftrightarrow> is_f32 v \<and> \<bar>v\<bar> \<le> 1"
  by (auto simp: axis_ok_def abs_le_iff)

lemma axis_ok_tick: "axis_ok (applyTickDelta d x)"
  using applyTickDelta_range [of d x] by (simp add: axis_ok_def is_f32_applyTickDelta)

lemma axis_ok_decay: "axis_ok x \<Longrightarrow> axis_ok (fst (applyDecay x))"
  using applyDecay_range [of x] by (simp add: axis_ok_abs is_f32_applyDecay)

text \<open>What a cycle does, block by block.\<close>

lemma loop_unfold:
  "loop (enc, lvl) s =
     (let x1 = (if enc \<noteq> lastEncoder1Position s
                then applyTickDelta (enc - lastEncoder1Position s) (joystickXFloat s)
                else joystickXFloat s);
          x2 = fst (applyDecay x1);
          dirty = (enc \<noteq> lastEncoder1Position s \<or> snd (applyDecay x1))
      in (s\<lparr>encoder1Position := enc, lastEncoder1Position := enc, joystickXFloat := x2,
            button := update lvl (button s)\<rparr>,
          (if dirty then [Joystick_X (xVal_of x2), Joystick_Y 512, Joystick_send_now] else [])
          @ key_block (update lvl (button s))))"
  by (cases "applyDecay (joystickXFloat s)";
      cases "applyDecay (applyTickDelta (enc - lastEncoder1Position s) (joystickXFloat s))")
     (auto simp: loop_def encoder_block_def decay_block_def hid_block_def Let_def)

lemma loop_axis_ok:
  assumes "axis_ok (joystickXFloat s)"
  shows "axis_ok (joystickXFloat (fst (loop inp s)))"
proof -
  obtain enc lvl where i: "inp = (enc, lvl)" by (cases inp)
  show ?thesis
    using assms by (simp add: i loop_unfold Let_def axis_ok_decay axis_ok_tick)
qed

lemma key_block_no_X: "Joystick_X n \<notin> set (key_block b)"
  by (simp add: key_block_def)

lemma loop_no_zero_frame:
  assumes "axis_ok (joystickXFloat s)"
  shows "Joystick_X 0 \<notin> set (snd (loop inp s))"
proof -
  obtain enc lvl where i: "inp = (enc, lvl)" by (cases inp)
  have "axis_ok (joystickXFloat (fst (loop inp s)))" using assms by (rule loop_axis_ok)
  then have "1 \<le> xVal_raw (joystickXFloat (fst (loop inp s)))"
    "xVal_raw (joystickXFloat (fst (loop inp s))) \<le> 1023"
    using xVal_raw_range by (simp_all add: axis_ok_abs)
  then have "xVal_of (joystickXFloat (fst (loop inp s))) \<noteq> 0"
    by (simp add: xVal_of_def constrain_def)
  then show ?thesis
    by (simp add: i loop_unfold Let_def key_block_no_X)
qed

lemma run_no_zero_frame:
  assumes "axis_ok (joystickXFloat s)"
  shows "Joystick_X 0 \<notin> set (snd (run inps s))"
  using assms
proof (induction inps arbitrary: s)
  case Nil then show ?case by simp
next
  case (Cons i inps)
  obtain s1 ev where l: "loop i s = (s1, ev)" by fastforce
  have 1: "Joystick_X 0 \<notin> set ev" using loop_no_zero_frame [OF Cons.prems, of i] by (simp add: l)
  have "axis_ok (joystickXFloat s1)" using loop_axis_ok [OF Cons.prems, of i] by (simp add: l)
  then have "Joystick_X 0 \<notin> set (snd (run inps s1))" by (rule Cons.IH)
  then show ?case using 1 by (cases "run inps s1") (simp add: l)
qed

text \<open>
  C9. For every \<^verbatim>\<open>float\<close> axis value in the range from -1 to 1 the rounded value of
  \<open>512 + v * 511\<close> lies between 1 and 1023, in exact arithmetic and as the code computes it in
  \<^verbatim>\<open>double\<close>, so the clamp to 0..1023 returns it unchanged and the value 0 is never sent: no
  cycle of any run from the initial state emits \<open>Joystick_X 0\<close>.
\<close>

theorem C9_saturation_unreachable:
  assumes "is_f32 v" and "\<bar>v\<bar> \<le> 1"
  shows "1 \<le> round_nearest (512 + v * 511) \<and> round_nearest (512 + v * 511) \<le> 1023
         \<and> 1 \<le> xVal_raw v \<and> xVal_raw v \<le> 1023
         \<and> constrain (xVal_raw v) 0 1023 = xVal_raw v
         \<and> xVal_of v \<noteq> 0
         \<and> Joystick_X 0 \<notin> set (snd (run inps (setup_state pin)))"
proof -
  have p: "0 \<le> 512 + v * 511" using assms(2) by (simp add: abs_le_iff)
  have r: "round_nearest (512 + v * 511) = xVal_raw v"
    using p by (simp add: round_nearest_def xVal_raw_exact [OF assms])
  have "axis_ok (joystickXFloat (setup_state pin))" by (simp add: setup_state_def axis_ok_def)
  then have z: "Joystick_X 0 \<notin> set (snd (run inps (setup_state pin)))" by (rule run_no_zero_frame)
  show ?thesis
    using xVal_raw_range [OF assms] z by (simp add: r xVal_of_def constrain_def)
qed

theorem C9_saturation_unreachable_witness:
  "is_f32 (- 1) \<and> \<bar>- 1 :: real\<bar> \<le> 1 \<and> xVal_raw (- 1) = 1 \<and> xVal_of (- 1) = 1
   \<and> Joystick_X 0 \<notin> set (snd (run [(7, True)] (setup_state True)))"
proof -
  have h: "is_f32 (- 1)" by (rule is_f32_1)
  have e: "xVal_raw (- 1) = 1" by code_simp
  show ?thesis
    using C9_saturation_unreachable [OF h, of "[(7, True)]" True] h e by (simp add: xVal_of_def constrain_def)
qed

lemma xVal_of_0: "xVal_of 0 = 512"
  by code_simp

lemma xVal_of_1: "xVal_of 1 = 1023"
  by code_simp

lemma xVal_of_m1: "xVal_of (- 1) = 1"
  by code_simp

text \<open>
  C4. For every \<^verbatim>\<open>float\<close> axis value \<open>v\<close> in the range from -1 to 1 the X value of the frame is
  \<open>clamp (round (512 + v * 511)) 0 1023\<close> with exact arithmetic and rounding to nearest: the
  \<^verbatim>\<open>double\<close> computation of the code loses nothing. The values 0, 1 and -1 map to 512, 1023 and
  1, and the Y value of the frame is 512.
\<close>

theorem C4_frame_mapping:
  assumes "is_f32 v" and "\<bar>v\<bar> \<le> 1"
  shows "xVal_of v = clamp_int (round_nearest (512 + v * 511)) 0 1023
         \<and> hid_block (s\<lparr>joystickXFloat := v\<rparr>, True) =
             [Joystick_X (clamp_int (round_nearest (512 + v * 511)) 0 1023), Joystick_Y 512,
              Joystick_send_now]
         \<and> xVal_of 0 = 512 \<and> xVal_of 1 = 1023 \<and> xVal_of (- 1) = 1"
  using xVal_of_spec [OF assms] xVal_of_0 xVal_of_1 xVal_of_m1
  by (simp add: hid_block_def spec_xVal_def Let_def)

theorem C4_frame_mapping_witness:
  "is_f32 (1 / 2) \<and> \<bar>1 / 2 :: real\<bar> \<le> 1
   \<and> clamp_int (round_nearest (512 + (1 / 2) * 511)) 0 1023 = 768
   \<and> xVal_of (1 / 2) = 768"
proof -
  have h: "is_f32 (1 / 2)" by code_simp
  have e: "clamp_int (round_nearest (512 + (1 / 2) * 511)) 0 1023 = 768"
    by (simp add: clamp_int_def round_nearest_def)
  show ?thesis using C4_frame_mapping [OF h] h e by simp
qed

subsection \<open>Repeated decay\<close>

lemma decay_iter_Suc: "decay_iter (Suc n) x = fst (applyDecay (decay_iter n x))"
  by (induction n arbitrary: x) simp_all

lemma applyDecay_0 [simp]: "applyDecay 0 = (0, False)"
  by (simp add: applyDecay_def)

lemma decay_iter_0 [simp]: "decay_iter n 0 = 0"
  by (induction n) simp_all

lemma decay_iter_add: "decay_iter (m + n) x = decay_iter n (decay_iter m x)"
  by (induction m arbitrary: x) simp_all

lemma applyDecay_nonneg: "0 \<le> x \<Longrightarrow> 0 \<le> fst (applyDecay x)"
  using round_to_sign_nonneg [of "x * decayRate" 24 "- 149"]
  by (simp add: applyDecay_def Let_def fmul32_def rnd32_def decayRate_val)

lemma applyDecay_nonpos: "x \<le> 0 \<Longrightarrow> fst (applyDecay x) \<le> 0"
  using round_to_sign_nonpos [of "x * decayRate" 24 "- 149"]
  by (simp add: applyDecay_def Let_def fmul32_def rnd32_def decayRate_val mult_le_0_iff)

lemma decay_iter_nonneg: "0 \<le> x \<Longrightarrow> 0 \<le> decay_iter k x"
  by (induction k arbitrary: x) (simp_all add: applyDecay_nonneg)

lemma decay_iter_nonpos: "x \<le> 0 \<Longrightarrow> decay_iter k x \<le> 0"
  by (induction k arbitrary: x) (simp_all add: applyDecay_nonpos)

lemma fmul32_decay_mag:
  "\<bar>fmul32 x decayRate\<bar> \<le> (8001 / 10000) * \<bar>x\<bar> \<or> \<bar>fmul32 x decayRate\<bar> < zeroThreshold"
proof (cases "2 powi (- 126) \<le> \<bar>x * decayRate\<bar>")
  case True
  define a where "a = x * decayRate"
  have "\<bar>rnd32 a - a\<bar> \<le> \<bar>a\<bar> / 2 ^ 24" using True unfolding a_def by (rule rnd32_rel_error)
  then have "\<bar>rnd32 a\<bar> \<le> \<bar>a\<bar> + \<bar>a\<bar> / 2 ^ 24" by linarith
  moreover have "\<bar>a\<bar> = \<bar>x\<bar> * (13421773 / 2 ^ 24)" by (simp add: a_def decayRate_val abs_mult)
  ultimately have "\<bar>rnd32 a\<bar> \<le> (8001 / 10000) * \<bar>x\<bar>" by simp
  then show ?thesis by (simp add: fmul32_def a_def)
next
  case False
  define a where "a = x * decayRate"
  have a: "\<bar>a\<bar> < 2 powi (- 126)" using False by (simp add: a_def)
  have "(2::real) powi (- 126) \<le> 2 powi (- 125)" by (rule powi2_mono) simp
  then have "\<bar>a\<bar> < 2 powi (- 125)" using a by linarith
  then have "\<bar>rnd32 a - a\<bar> \<le> 2 powi (- 125 - 25)" by (rule rnd32_abs_error) simp
  also have "\<dots> \<le> 1 / 1000" by (simp add: power_int_minus field_simps)
  finally have e1: "\<bar>rnd32 a - a\<bar> \<le> 1 / 1000" .
  have "(2::real) powi (- 126) \<le> 1 / 1000" by (simp add: power_int_minus field_simps)
  then have e2: "\<bar>a\<bar> < 1 / 1000" using a by linarith
  have "\<bar>rnd32 a\<bar> < 1 / 100 - 1 / 1000" using e1 e2 by linarith
  then have "\<bar>rnd32 a\<bar> < zeroThreshold" by (simp add: zeroThreshold_val)
  then show ?thesis by (simp add: fmul32_def a_def)
qed

lemma applyDecay_mag: "\<bar>fst (applyDecay x)\<bar> \<le> (8001 / 10000) * \<bar>x\<bar>"
  using fmul32_decay_mag [of x] by (auto simp: applyDecay_def Let_def abs_macro_abs)

lemma applyDecay_snaps:
  assumes "(8001 / 10000) * \<bar>x\<bar> < zeroThreshold"
  shows "fst (applyDecay x) = 0"
  using fmul32_decay_mag [of x] assms by (auto simp: applyDecay_def Let_def abs_macro_abs)

lemma decay_iter_mag: "\<bar>decay_iter k x\<bar> \<le> (8001 / 10000) ^ k * \<bar>x\<bar>"
proof (induction k)
  case 0 then show ?case by simp
next
  case (Suc k)
  have "\<bar>decay_iter (Suc k) x\<bar> \<le> (8001 / 10000) * \<bar>decay_iter k x\<bar>"
    unfolding decay_iter_Suc by (rule applyDecay_mag)
  also have "\<dots> \<le> (8001 / 10000) * ((8001 / 10000) ^ k * \<bar>x\<bar>)"
    using Suc.IH by simp
  finally show ?case by simp
qed

lemma decay_iter_decreasing: "\<bar>decay_iter (Suc k) x\<bar> \<le> \<bar>decay_iter k x\<bar>"
proof -
  have "\<bar>decay_iter (Suc k) x\<bar> \<le> (8001 / 10000) * \<bar>decay_iter k x\<bar>"
    unfolding decay_iter_Suc by (rule applyDecay_mag)
  then show ?thesis by linarith
qed

lemma ln_08_neg: "ln (8 / 10 :: real) < 0"
  by (rule ln_less_zero) simp_all

lemma decay_calls_bound_le:
  assumes "s \<noteq> 0" "\<bar>s\<bar> \<le> 1"
  shows "decay_calls_bound s \<le> 21"
proof -
  have as: "0 < \<bar>s\<bar>" using assms(1) by simp
  have "(8 / 10 :: real) ^ 21 \<le> 1 / 100" by (simp add: power_divide)
  then have "ln ((8 / 10 :: real) ^ 21) \<le> ln (1 / 100)" by (subst ln_le_cancel_iff) simp_all
  then have a: "21 * ln (8 / 10 :: real) \<le> ln (1 / 100)" by (simp add: ln_realpow)
  have "(1 / 100 :: real) \<le> (1 / 100) / \<bar>s\<bar>" using as assms(2) by (simp add: field_simps)
  then have "ln (1 / 100 :: real) \<le> ln ((1 / 100) / \<bar>s\<bar>)" using as by (subst ln_le_cancel_iff) simp_all
  then have "21 * ln (8 / 10 :: real) \<le> ln ((1 / 100) / \<bar>s\<bar>)" using a by linarith
  then have "ln ((1 / 100) / \<bar>s\<bar>) / ln (8 / 10) \<le> 21"
    using ln_08_neg by (simp add: neg_divide_le_eq mult.commute)
  then show ?thesis unfolding decay_calls_bound_def by (simp add: ceiling_le_iff)
qed

lemma decay_calls_bound_power:
  assumes "s \<noteq> 0" "\<bar>s\<bar> \<le> 1" "decay_calls_bound s \<le> int n"
  shows "(8 / 10) ^ Suc n * \<bar>s\<bar> \<le> 8 / 1000"
proof -
  have as: "0 < \<bar>s\<bar>" using assms(1) by simp
  define L where "L = ln ((1 / 100) / \<bar>s\<bar>) / ln (8 / 10)"
  have "L \<le> of_int (decay_calls_bound s)" unfolding decay_calls_bound_def L_def by (rule le_of_int_ceiling)
  also have "\<dots> \<le> real n" using assms(3) by linarith
  finally have Ln: "L + 1 \<le> real (Suc n)" by simp
  have "real (Suc n) * ln (8 / 10) \<le> (L + 1) * ln (8 / 10)"
    using Ln ln_08_neg by (simp only: mult_le_cancel_right) simp
  also have "\<dots> = ln ((1 / 100) / \<bar>s\<bar>) + ln (8 / 10)"
    using ln_08_neg by (simp add: L_def algebra_simps)
  also have "ln ((1 / 100) / \<bar>s\<bar>) = ln (1 / 100) - ln \<bar>s\<bar>"
    using as by (subst ln_div) simp_all
  finally have "real (Suc n) * ln (8 / 10) + ln \<bar>s\<bar> \<le> ln (1 / 100) + ln (8 / 10)" by simp
  moreover have "ln ((8 / 10) ^ Suc n * \<bar>s\<bar>) = real (Suc n) * ln (8 / 10) + ln \<bar>s\<bar>"
  proof -
    have p: "0 < (8 / 10 :: real) ^ Suc n" by (rule zero_less_power) simp
    have "ln ((8 / 10) ^ Suc n * \<bar>s\<bar>) = ln ((8 / 10) ^ Suc n) + ln \<bar>s\<bar>"
      using p as by (rule ln_mult_pos)
    moreover have "ln ((8 / 10 :: real) ^ Suc n) = real (Suc n) * ln (8 / 10)"
      by (rule ln_realpow)
    ultimately show ?thesis by (simp only:)
  qed
  moreover have "ln (8 / 1000 :: real) = ln (1 / 100) + ln (8 / 10)"
    using ln_mult [of "1 / 100 :: real" "8 / 10"] by simp
  ultimately have "ln ((8 / 10) ^ Suc n * \<bar>s\<bar>) \<le> ln (8 / 1000)" by simp
  then show ?thesis using as by (subst (asm) ln_le_cancel_iff) simp_all
qed

lemma decay_calls_bound_eq:
  assumes "s \<noteq> 0" "(8 / 10) ^ Suc k \<le> (1 / 100) / \<bar>s\<bar>" "(1 / 100) / \<bar>s\<bar> < (8 / 10) ^ k"
  shows "decay_calls_bound s = int (Suc k)"
proof -
  define q where "q = (1 / 100) / \<bar>s\<bar>"
  have q: "0 < q" using assms(1) by (simp add: q_def)
  have "ln ((8 / 10) ^ Suc k) \<le> ln q"
    using assms(2) q unfolding q_def [symmetric] by (subst ln_le_cancel_iff) simp_all
  then have a: "real (Suc k) * ln (8 / 10) \<le> ln q" by (simp only: ln_realpow)
  have "ln q < ln ((8 / 10) ^ k)"
    using assms(3) q unfolding q_def [symmetric] by (subst ln_less_cancel_iff) simp_all
  then have b: "ln q < real k * ln (8 / 10)" by (simp only: ln_realpow)
  have 1: "ln q / ln (8 / 10) \<le> real (Suc k)"
    using a ln_08_neg by (simp add: neg_divide_le_eq mult.commute)
  have 2: "real k < ln q / ln (8 / 10)"
    using b ln_08_neg by (simp add: neg_less_divide_eq mult.commute)
  have "\<lceil>ln q / ln (8 / 10)\<rceil> = int (Suc k)"
    by (rule ceiling_unique) (use 1 2 in simp_all)
  then show ?thesis by (simp add: decay_calls_bound_def q_def)
qed

lemma decay_reaches_zero:
  assumes "s \<noteq> 0" "\<bar>s\<bar> \<le> 1"
  shows "decay_iter (nat (decay_calls_bound s) + 1) s = 0"
proof -
  define n where "n = nat (decay_calls_bound s)"
  define r :: real where "r = 8001 / 8000"
  define w where "w = decay_iter n s"
  have n1: "decay_calls_bound s \<le> int n" by (simp add: n_def)
  have n2: "Suc n \<le> 22" using decay_calls_bound_le [OF assms] by (simp add: n_def)
  have p: "(8 / 10) ^ Suc n * \<bar>s\<bar> \<le> 8 / 1000" using assms n1 by (rule decay_calls_bound_power)
  have "r ^ Suc n \<le> r ^ 22" using n2 by (rule power_increasing) (simp add: r_def)
  also have "\<dots> \<le> 1003 / 1000" by (simp add: r_def power_divide)
  finally have rb: "r ^ Suc n \<le> 1003 / 1000" .
  have r0: "0 \<le> r ^ Suc n" by (simp add: r_def)
  have p0: "0 \<le> (8 / 10) ^ Suc n * \<bar>s\<bar>" by simp
  have "(8001 / 10000) * \<bar>w\<bar> \<le> (8001 / 10000) * ((8001 / 10000) ^ n * \<bar>s\<bar>)"
    unfolding w_def using decay_iter_mag [of n s] by simp
  also have "\<dots> = (r * (8 / 10)) ^ Suc n * \<bar>s\<bar>" by (simp add: r_def)
  also have "\<dots> = r ^ Suc n * ((8 / 10) ^ Suc n * \<bar>s\<bar>)" by (simp only: power_mult_distrib mult.assoc)
  also have "\<dots> \<le> (1003 / 1000) * (8 / 1000)" by (intro mult_mono rb p p0) simp
  also have "\<dots> < zeroThreshold" by (simp add: zeroThreshold_val)
  finally have "fst (applyDecay w) = 0" by (rule applyDecay_snaps)
  then have "decay_iter (Suc n) s = 0" by (simp only: decay_iter_Suc w_def)
  then show ?thesis by (simp add: n_def)
qed

lemma decay_same_sign: "sgn (decay_iter k s) = sgn s \<or> decay_iter k s = 0"
proof (cases "0 \<le> s")
  case True
  then have "0 \<le> decay_iter k s" by (rule decay_iter_nonneg)
  moreover have "s = 0 \<Longrightarrow> decay_iter k s = 0" by simp
  ultimately show ?thesis using True by (auto simp: sgn_if)
next
  case False
  then have "decay_iter k s \<le> 0" by (intro decay_iter_nonpos) simp
  then show ?thesis using False by (auto simp: sgn_if)
qed

text \<open>
  C5, as amended. From every nonzero start value \<open>s\<close> in the range from -1 to 1, repeated
  decay reaches exactly 0 within \<open>max (ceil (log (0.01 / |s|) / log 0.8)) 0 + 1\<close> calls and
  stays there; at every step the value is 0 or has the sign of \<open>s\<close>, and its magnitude never
  grows.
\<close>

theorem C5_decay_reaches_zero:
  assumes "s \<noteq> 0" and "\<bar>s\<bar> \<le> 1"
  shows "decay_iter (nat (decay_calls_bound s) + 1) s = 0
         \<and> decay_iter (nat (decay_calls_bound s) + 1 + j) s = 0
         \<and> (sgn (decay_iter k s) = sgn s \<or> decay_iter k s = 0)
         \<and> \<bar>decay_iter (Suc k) s\<bar> \<le> \<bar>decay_iter k s\<bar>"
  using decay_reaches_zero [OF assms] decay_same_sign [of k s] decay_iter_decreasing [of k s]
  by (simp add: decay_iter_add)

lemma bound_at_1: "decay_calls_bound 1 = 21"
  using decay_calls_bound_eq [of 1 20] by (simp add: power_divide)

theorem C5_decay_reaches_zero_witness:
  "(1 :: real) \<noteq> 0 \<and> \<bar>1 :: real\<bar> \<le> 1 \<and> decay_calls_bound 1 = 21 \<and> decay_iter 22 1 = 0
   \<and> sgn (decay_iter 3 1) = sgn (1 :: real)
   \<and> \<bar>decay_iter (Suc 3) 1\<bar> \<le> \<bar>decay_iter 3 (1 :: real)\<bar>"
proof -
  have h1: "(1 :: real) \<noteq> 0" and h2: "\<bar>1 :: real\<bar> \<le> 1" by simp_all
  have e: "decay_iter 3 1 \<noteq> 0" by code_simp
  show ?thesis
    using C5_decay_reaches_zero [OF h1 h2, of 0 3] e by (simp add: bound_at_1)
qed

lemma start_below_0125_is_f32: "is_f32 (13421772 / 2 ^ 30)"
  by code_simp

lemma start_below_0125_step: "decay_iter 1 (13421772 / 2 ^ 30) = 10737418 / 2 ^ 30"
  by code_simp

lemma start_below_0125_step2: "decay_iter 2 (13421772 / 2 ^ 30) = 0"
  by code_simp

lemma start_below_0125_bound: "decay_calls_bound (13421772 / 2 ^ 30) = 1"
  using decay_calls_bound_eq [of "13421772 / 2 ^ 30" 0] by simp

text \<open>A start value below the threshold has a bound of at most 0 calls, and needs one.\<close>

lemma small_start_bound: "decay_calls_bound (1 / 128) \<le> 0 \<and> decay_iter 0 (1 / 128) \<noteq> 0
   \<and> decay_iter 1 (1 / 128) = 0"
proof -
  have "0 < ln (128 / 100 :: real)" by (rule ln_gt_zero) simp
  then have "ln (128 / 100 :: real) / ln (8 / 10) \<le> 0"
    using ln_08_neg by (simp add: divide_le_0_iff)
  then have "decay_calls_bound (1 / 128) \<le> 0" by (simp add: decay_calls_bound_def ceiling_le_iff)
  moreover have "decay_iter 1 (1 / 128) = 0" by code_simp
  ultimately show ?thesis by simp
qed

text \<open>
  The bound of the spec without the extra call fails. The \<^verbatim>\<open>float\<close> just below 0.0125 has
  the bound 1, but one decay step rounds the product up to \<open>zeroThreshold\<close> itself, which is
  not below the threshold and survives; the second step reaches 0. And the start value
  \<open>1 / 128\<close>, below the threshold, has a bound of at most 0 calls and needs one.
\<close>

theorem C5_bound_counterexample:
  "is_f32 (13421772 / 2 ^ 30) \<and> (13421772 / 2 ^ 30 :: real) \<noteq> 0
   \<and> \<bar>13421772 / 2 ^ 30 :: real\<bar> \<le> 1
   \<and> decay_calls_bound (13421772 / 2 ^ 30) = 1
   \<and> decay_iter 0 (13421772 / 2 ^ 30) \<noteq> 0
   \<and> decay_iter 1 (13421772 / 2 ^ 30) \<noteq> 0
   \<and> decay_iter 1 (13421772 / 2 ^ 30) = zeroThreshold
   \<and> decay_iter 2 (13421772 / 2 ^ 30) = 0
   \<and> decay_calls_bound (1 / 128) \<le> 0 \<and> decay_iter 0 (1 / 128) \<noteq> 0
   \<and> decay_iter 1 (1 / 128) = 0"
proof -
  have 1: "decay_iter 1 (13421772 / 2 ^ 30) = zeroThreshold"
    unfolding start_below_0125_step zeroThreshold_val by (rule refl)
  have 2: "decay_iter 1 (13421772 / 2 ^ 30) \<noteq> 0" unfolding start_below_0125_step by simp
  have 3: "decay_iter 0 (13421772 / 2 ^ 30) \<noteq> 0" by simp
  have 4: "(13421772 / 2 ^ 30 :: real) \<noteq> 0" "\<bar>13421772 / 2 ^ 30 :: real\<bar> \<le> 1" by simp_all
  have 5: "decay_iter 0 (13421772 / 2 ^ 30) \<noteq> 0 \<and> decay_iter 1 (13421772 / 2 ^ 30) \<noteq> 0
           \<and> decay_iter 1 (13421772 / 2 ^ 30) = zeroThreshold
           \<and> decay_iter 2 (13421772 / 2 ^ 30) = 0"
    by (intro conjI) (rule 3, rule 2, rule 1, rule start_below_0125_step2)
  show ?thesis
    using start_below_0125_is_f32 4 start_below_0125_bound 5 small_start_bound by blast
qed

end
